theory Spec2Isabelle
  imports Complex_Main
begin

section \<open>Nodes and collections (Engine/NodeGroup.cpp)\<close>

text \<open>
  A \<open>Node\<close> is an object of the application; the collection only holds pointers to it.
  The model keeps the attributes that NodeGroup.cpp reads through the node's methods:
  the pointer identity (\<open>node_id\<close>), \<open>getScriptName\<close>, \<open>getPluginID\<close>,
  \<open>getMajorVersion\<close>, \<open>getEffectInstance()->isReader()\<close>, the result of
  \<open>getFrameRange_public\<close> (\<open>None\<close> when the action returns a failure code, the two
  doubles of the \<open>RangeD\<close> otherwise),
  \<open>isOutputNode\<close>, \<open>isEffectGroupInput\<close>, \<open>toGroupOutput\<close>, whether \<open>getGroup\<close> is
  not null, the labels of the input slots and \<open>isInputMask\<close> per slot. \<open>isEffectNodeGroup\<close> is \<open>Some members\<close> when the
  node's effect is a NodeGroup, holding the nested collection's member list.
\<close>

record node_info =
  node_id :: nat
  script_name :: string
  plugin_id :: string
  major_version :: int
  is_reader :: bool
  frame_range :: "(real \<times> real) option"
  is_output_node :: bool
  is_group_input :: bool
  is_group_output :: bool
  has_group :: bool
  input_labels :: "string list"
  input_masks :: "bool list"

datatype node = Node (info: node_info) (isEffectNodeGroup: "node list option")

text \<open>A node without special capabilities, used to build concrete collections.\<close>

definition plain_info :: "nat \<Rightarrow> string \<Rightarrow> node_info" where
  "plain_info i s =
     \<lparr>node_id = i, script_name = s, plugin_id = [], major_version = 1, is_reader = False,
      frame_range = None, is_output_node = False, is_group_input = False, is_group_output = False,
      has_group = True, input_labels = [], input_masks = []\<rparr>"

definition reader_info :: "nat \<Rightarrow> string \<Rightarrow> int \<Rightarrow> int \<Rightarrow> node_info" where
  "reader_info i s lo hi =
     (plain_info i s)\<lparr>is_reader := True, frame_range := Some (real_of_int lo, real_of_int hi)\<rparr>"

lemma size_child_lt:
  "n \<in> set ns \<Longrightarrow> isEffectNodeGroup n = Some c \<Longrightarrow> size_list size c < size_list size ns"
proof (induction ns)
  case Nil
  then show ?case by simp
next
  case (Cons a ns)
  show ?case
  proof (cases "n = a")
    case True
    with Cons.prems(2) show ?thesis by (cases a) simp
  next
    case False
    with Cons have "size_list size c < size_list size ns" by simp
    then show ?thesis by simp
  qed
qed

subsection \<open>Recursive listings\<close>

text \<open>
  \<open>NodeCollection::getNodes_recursive(nodes, onlyActive)\<close>: the first loop runs over the
  members under the lock; when \<open>onlyActive\<close> is set it executes \<open>continue\<close> for every
  member, so nothing is appended and no group is recorded. The second loop recurses into
  the recorded groups, appending to the same output list.
\<close>

function getNodes_recursive :: "node list \<Rightarrow> node list \<Rightarrow> bool \<Rightarrow> node list" where
  "getNodes_recursive coll nodes onlyActive =
     fold (\<lambda>g acc. case isEffectNodeGroup g of
                      None \<Rightarrow> acc
                    | Some c \<Rightarrow> getNodes_recursive c acc onlyActive)
          (if onlyActive then [] else filter (\<lambda>n. isEffectNodeGroup n \<noteq> None) coll)
          (if onlyActive then nodes else nodes @ coll)"
  by pat_completeness auto
termination
  by (relation "measure (\<lambda>(coll, nodes, a). size_list size coll)")
     (auto split: if_splits dest: size_child_lt)

text \<open>\<open>NodeCollection::getActiveNodes\<close>: every member is appended, none is filtered.\<close>

definition getActiveNodes :: "node list \<Rightarrow> node list \<Rightarrow> node list" where
  "getActiveNodes coll nodes = nodes @ coll"

text \<open>
  \<open>NodeCollection::getActiveNodesExpandGroups\<close>: each member is appended, and when it is
  a group its contents follow it at once.
\<close>

function getActiveNodesExpandGroups :: "node list \<Rightarrow> node list \<Rightarrow> node list" where
  "getActiveNodesExpandGroups coll nodes =
     fold (\<lambda>n acc. case isEffectNodeGroup n of
                      None \<Rightarrow> acc @ [n]
                    | Some c \<Rightarrow> getActiveNodesExpandGroups c (acc @ [n]))
          coll nodes"
  by pat_completeness auto
termination
  by (relation "measure (\<lambda>(coll, nodes). size_list size coll)")
     (auto dest: size_child_lt)

subsection \<open>Frame range of all readers\<close>

definition INT_MIN :: int where "INT_MIN = - (2 ^ 31)"
definition INT_MAX :: int where "INT_MAX = 2 ^ 31 - 1"

text \<open>
  The conversion of a \<open>double\<close> to \<open>int\<close>: the value is truncated towards zero, and the
  conversion has no defined result (\<open>None\<close>) when the truncated value is not an
  \<open>int\<close>. A finite double is a real number; infinities and NaN, which convert without a
  defined result too, are not represented.
\<close>

definition double_to_int :: "real \<Rightarrow> int option" where
  "double_to_int d =
     (let t = (if 0 \<le> d then \<lfloor>d\<rfloor> else \<lceil>d\<rceil>)
      in if INT_MIN \<le> t \<and> t \<le> INT_MAX then Some t else None)"

text \<open>
  The body of the loop for a reader whose range was obtained. A bound equal to
  \<open>INT_MIN\<close> (resp. \<open>INT_MAX\<close>) is skipped. With \<open>setFrameRange\<close> the double is
  assigned to the \<open>int\<close>, otherwise it is cast and combined by \<open>std::min\<close> or
  \<open>std::max\<close>: the conversion is the same in both.
\<close>

definition reader_step ::
  "real \<times> real \<Rightarrow> bool \<Rightarrow> int \<times> int \<Rightarrow> (int \<times> int) option" where
  "reader_step thisRange setFrameRange fl =
     (case thisRange of (rmin, rmax) \<Rightarrow>
      case fl of (firstFrame, lastFrame) \<Rightarrow>
        (case (if rmin \<noteq> real_of_int INT_MIN
               then map_option (\<lambda>v. if setFrameRange then v else min firstFrame v)
                      (double_to_int rmin)
               else Some firstFrame) of
           None \<Rightarrow> None
         | Some firstFrame' \<Rightarrow>
             (case (if rmax \<noteq> real_of_int INT_MAX
                    then map_option (\<lambda>v. if setFrameRange then v else max lastFrame v)
                           (double_to_int rmax)
                    else Some lastFrame) of
                None \<Rightarrow> None
              | Some lastFrame' \<Rightarrow> Some (firstFrame', lastFrame'))))"

text \<open>
  \<open>NodeCollection::recomputeFrameRangeForAllReadersInternal(firstFrame, lastFrame,
  setFrameRange)\<close>. The two out-parameters are the pair that is threaded through the loop;
  the result is \<open>None\<close> when a conversion has no defined result. The flag
  \<open>setFrameRange\<close> is a by-value parameter that the loop never assigns, and the recursive
  call on a group passes \<open>false\<close>.
\<close>

function recomputeFrameRangeForAllReadersInternal ::
  "node list \<Rightarrow> int \<times> int \<Rightarrow> bool \<Rightarrow> (int \<times> int) option" where
  "recomputeFrameRangeForAllReadersInternal nodes fl setFrameRange =
     fold (\<lambda>n st.
             case st of
               None \<Rightarrow> None
             | Some (firstFrame, lastFrame) \<Rightarrow>
                 if is_reader (info n) then
                   (case frame_range (info n) of
                      None \<Rightarrow> Some (firstFrame, lastFrame)
                    | Some thisRange \<Rightarrow>
                        reader_step thisRange setFrameRange (firstFrame, lastFrame))
                 else
                   (case isEffectNodeGroup n of
                      None \<Rightarrow> Some (firstFrame, lastFrame)
                    | Some c \<Rightarrow>
                        recomputeFrameRangeForAllReadersInternal c (firstFrame, lastFrame) False))
          nodes (Some fl)"
  by pat_completeness auto
termination
  by (relation "measure (\<lambda>(ns, fl, s). size_list size ns)") (auto dest: size_child_lt)

definition recomputeFrameRangeForAllReaders :: "node list \<Rightarrow> int \<times> int \<Rightarrow> (int \<times> int) option" where
  "recomputeFrameRangeForAllReaders nodes fl =
     recomputeFrameRangeForAllReadersInternal nodes fl True"

subsection \<open>Script names\<close>

text \<open>
  The string stream prints the counter \<open>no\<close> in decimal. The counter starts at 1 and only
  grows, so it is a natural number here. In the source it is an \<open>int\<close>; it never
  exceeds the number of members plus one (\<open>checkNodeName_loop_counter_bound\<close>).
\<close>

definition digit_char :: "nat \<Rightarrow> char" where
  "digit_char d = char_of (48 + d)"

function string_of_nat :: "nat \<Rightarrow> string" where
  "string_of_nat n =
     (if n < 10 then [digit_char n] else string_of_nat (n div 10) @ [digit_char (n mod 10)])"
  by pat_completeness auto
termination
  by (relation "measure id") auto

declare string_of_nat.simps [simp del]

lemma digit_char_inj: "a < 10 \<Longrightarrow> b < 10 \<Longrightarrow> digit_char a = digit_char b \<Longrightarrow> a = b"
proof -
  assume a: "a < 10" and b: "b < 10" and e: "digit_char a = digit_char b"
  from e have "of_char (digit_char a) = (of_char (digit_char b) :: nat)" by simp
  then have "(48 + a) mod 256 = (48 + b) mod 256"
    by (simp add: digit_char_def)
  with a b show "a = b" by simp
qed

lemma string_of_nat_nonempty: "string_of_nat n \<noteq> []"
  by (subst string_of_nat.simps) simp

lemma string_of_nat_inj: "string_of_nat n = string_of_nat m \<Longrightarrow> n = m"
proof (induction n arbitrary: m rule: string_of_nat.induct)
  case (1 n)
  show ?case
  proof (cases "n < 10")
    case n: True
    show ?thesis
    proof (cases "m < 10")
      case True
      with n "1.prems" show ?thesis
        by (simp add: string_of_nat.simps[of n] string_of_nat.simps[of m] digit_char_inj)
    next
      case False
      with n "1.prems" show ?thesis
        using string_of_nat_nonempty[of "m div 10"]
        by (simp add: string_of_nat.simps[of n] string_of_nat.simps[of m])
    qed
  next
    case n: False
    show ?thesis
    proof (cases "m < 10")
      case True
      with n "1.prems" show ?thesis
        using string_of_nat_nonempty[of "n div 10"]
        by (simp add: string_of_nat.simps[of n] string_of_nat.simps[of m])
    next
      case False
      with n "1.prems" have e: "string_of_nat (n div 10) = string_of_nat (m div 10)"
        and d: "digit_char (n mod 10) = digit_char (m mod 10)"
        by (simp_all add: string_of_nat.simps[of n] string_of_nat.simps[of m])
      from "1.IH"[OF n e] have "n div 10 = m div 10" .
      moreover from d have "n mod 10 = m mod 10" by (rule digit_char_inj[rotated 2]) simp_all
      ultimately show ?thesis by (metis div_mult_mod_eq)
    qed
  qed
qed

text \<open>
  The three \<open>std::runtime_error\<close>s that \<open>checkNodeName\<close> throws, told apart by their
  message: "Invalid script-name.", "A node within a group cannot have the same script-name
  (%1) as a parameter on the group", "A node with the script-name %1 already exists.".
\<close>

datatype name_error = InvalidScriptName | NamingConflict string | NameExists string

text \<open>
  A collection is the member list of \<open>NodeCollectionPrivate\<close>; when the object is a
  \<open>NodeGroup\<close> (the dynamic cast of \<open>this\<close> succeeds) it also has the fields
  of \<open>NodeGroupPrivate\<close> and the script names of the group's knobs. The input and output
  lists hold weak pointers: \<open>Some p\<close> is a live pointer to the node \<open>p\<close>,
  \<open>None\<close> an expired one.
\<close>

record group_state =
  group_inputs :: "nat option list"
  group_outputs :: "nat option list"
  knob_names :: "string list"
  isActivatingGroup :: bool

record collection =
  nodes :: "node list"
  isGroup :: "group_state option"

text \<open>
  The inner \<open>for\<close> loop of \<open>checkNodeName\<close>: some member other than \<open>node\<close>
  (pointer comparison; \<open>None\<close> is the null pointer) carries the name.
\<close>

definition foundNodeWithName :: "node list \<Rightarrow> nat option \<Rightarrow> string \<Rightarrow> bool" where
  "foundNodeWithName ns node nodeName =
     list_ex (\<lambda>n. Some (node_id (info n)) \<noteq> node \<and> script_name (info n) = nodeName) ns"

text \<open>
  The suffixes above \<open>no\<close> that are taken: the measure of the loop below.
\<close>

definition taken_suffixes :: "node list \<Rightarrow> nat option \<Rightarrow> string \<Rightarrow> nat \<Rightarrow> nat set" where
  "taken_suffixes ns node cpy no = {k. no < k \<and> foundNodeWithName ns node (cpy @ string_of_nat k)}"

lemma finite_taken_suffixes: "finite (taken_suffixes ns node cpy no)"
proof -
  have inj: "inj (\<lambda>k. cpy @ string_of_nat k)"
    by (rule injI) (simp add: string_of_nat_inj)
  have "taken_suffixes ns node cpy no
          \<subseteq> (\<lambda>k. cpy @ string_of_nat k) -` (set (map (\<lambda>n. script_name (info n)) ns))"
    by (force simp: taken_suffixes_def foundNodeWithName_def list_ex_iff)
  moreover have "finite ((\<lambda>k. cpy @ string_of_nat k) -` (set (map (\<lambda>n. script_name (info n)) ns)))"
    by (rule finite_vimageI[OF _ inj]) simp
  ultimately show ?thesis by (rule finite_subset)
qed

lemma taken_suffixes_step:
  "taken_suffixes ns node cpy no =
     (if foundNodeWithName ns node (cpy @ string_of_nat (Suc no)) then {Suc no} else {})
       \<union> taken_suffixes ns node cpy (Suc no)"
proof -
  have "\<And>k. no < k \<longleftrightarrow> k = Suc no \<or> Suc no < k" by auto
  then show ?thesis by (auto simp: taken_suffixes_def)
qed

lemma card_taken_suffixes_step:
  "card (taken_suffixes ns node cpy no) =
     (if foundNodeWithName ns node (cpy @ string_of_nat (Suc no)) then 1 else 0)
       + card (taken_suffixes ns node cpy (Suc no))"
proof -
  have notin: "Suc no \<notin> taken_suffixes ns node cpy (Suc no)"
    by (simp add: taken_suffixes_def)
  show ?thesis
    by (subst taken_suffixes_step) (simp add: finite_taken_suffixes notin)
qed

text \<open>
  The \<open>do ... while (foundNodeWithName)\<close> loop of \<open>checkNodeName\<close>, with the
  candidate \<open>*nodeName\<close> and the counter \<open>no\<close> as its state.
\<close>

function checkNodeName_loop ::
  "node list \<Rightarrow> nat option \<Rightarrow> string \<Rightarrow> bool \<Rightarrow> bool \<Rightarrow> string \<Rightarrow> nat \<Rightarrow> name_error + string" where
  "checkNodeName_loop ns node cpy appendDigit errorIfExists nodeName no =
     (if foundNodeWithName ns node nodeName then
        (if errorIfExists \<or> \<not> appendDigit then Inl (NameExists nodeName)
         else checkNodeName_loop ns node cpy appendDigit errorIfExists
                (cpy @ string_of_nat (Suc no)) (Suc no))
      else Inr nodeName)"
  by pat_completeness auto
termination
proof (relation "measure (\<lambda>(ns, node, cpy, a, e, nodeName, no).
          2 * card (taken_suffixes ns node cpy no)
          + (if foundNodeWithName ns node nodeName then 1 else 0))", goal_cases)
  case 1
  show ?case by simp
next
  case (2 ns node cpy appendDigit errorIfExists nodeName no)
  then show ?case
    by (simp add: card_taken_suffixes_step[of ns node cpy no])
qed

declare checkNodeName_loop.simps [simp del]

text \<open>
  \<open>NodeCollection::checkNodeName(node, baseName, appendDigit, errorIfExists, nodeName)\<close>.
  \<open>makeNameScriptFriendly\<close> belongs to the scripting layer and is a parameter.
\<close>

definition checkNodeName ::
  "(string \<Rightarrow> string) \<Rightarrow> collection \<Rightarrow> nat option \<Rightarrow> string \<Rightarrow> bool \<Rightarrow> bool
     \<Rightarrow> name_error + string" where
  "checkNodeName makeNameScriptFriendly coll node baseName appendDigit errorIfExists =
     (if baseName = [] then Inl InvalidScriptName
      else let cpy = makeNameScriptFriendly baseName in
        if cpy = [] then Inl InvalidScriptName
        else if (case isGroup coll of None \<Rightarrow> False | Some g \<Rightarrow> cpy \<in> set (knob_names g))
        then Inl (NamingConflict cpy)
        else checkNodeName_loop (nodes coll) node cpy appendDigit errorIfExists
               (if appendDigit then cpy @ string_of_nat 1 else cpy) 1)"

text \<open>
  \<open>NodeCollection::initNodeName(pluginID, pluginLabel, nodeName)\<close>. The plug-in
  identifier \<open>PLUGINID_NATRON_OUTPUT\<close> is a macro of another header and is a parameter.
  \<open>catch (...)\<close> catches every error of the first attempt.
\<close>

definition initNodeName ::
  "string \<Rightarrow> (string \<Rightarrow> string) \<Rightarrow> collection \<Rightarrow> string \<Rightarrow> string \<Rightarrow> name_error + string" where
  "initNodeName PLUGINID_NATRON_OUTPUT makeNameScriptFriendly coll pluginID pluginLabel =
     (let baseName =
            (if length pluginLabel > 3
                \<and> pluginLabel ! (length pluginLabel - 1) = CHR ''X''
                \<and> pluginLabel ! (length pluginLabel - 2) = CHR ''F''
                \<and> pluginLabel ! (length pluginLabel - 3) = CHR ''O''
             then take (length pluginLabel - 3) pluginLabel else pluginLabel);
          isOutputNode = (pluginID = PLUGINID_NATRON_OUTPUT)
      in if \<not> isOutputNode
         then checkNodeName makeNameScriptFriendly coll None baseName True False
         else (case checkNodeName makeNameScriptFriendly coll None baseName False False of
                 Inr nodeName \<Rightarrow> Inr nodeName
               | Inl e \<Rightarrow> checkNodeName makeNameScriptFriendly coll None baseName True False))"

text \<open>
  Modelled from the spec: \<open>makeNameScriptFriendly\<close> (scripting layer, not in this
  file) "normalizes baseName into a script-safe identifier (stripping non-alphanumeric
  characters)". It is used for concrete inputs only; the theorems hold for every normalizer.
\<close>

definition isalnum :: "char \<Rightarrow> bool" where
  "isalnum c = (let k = (of_char c :: nat) in
      (48 \<le> k \<and> k \<le> 57) \<or> (65 \<le> k \<and> k \<le> 90) \<or> (97 \<le> k \<and> k \<le> 122))"

definition makeNameScriptFriendly_spec :: "string \<Rightarrow> string" where
  "makeNameScriptFriendly_spec s = filter isalnum s"

text \<open>
  The base name of \<open>initNodeName\<close>, written with \<open>take\<close> and \<open>drop\<close>.
\<close>

definition OFX_stripped :: "string \<Rightarrow> string" where
  "OFX_stripped label =
     (if 3 < length label \<and> drop (length label - 3) label = ''OFX''
      then take (length label - 3) label else label)"

subsection \<open>Membership\<close>

text \<open>
  \<open>NodeCollection::addNode\<close>: \<open>push_back\<close> under the lock, with no check of any kind.
\<close>

definition addNode :: "collection \<Rightarrow> node \<Rightarrow> collection" where
  "addNode coll node = coll\<lparr>nodes := nodes coll @ [node]\<rparr>"

text \<open>
  The loops of \<open>removeNode\<close> and \<open>onNodeRemoved\<close>: erase the first matching entry and
  \<open>break\<close>.
\<close>

fun erase_first :: "('a \<Rightarrow> bool) \<Rightarrow> 'a list \<Rightarrow> 'a list" where
  "erase_first P [] = []"
| "erase_first P (x # xs) = (if P x then xs else x # erase_first P xs)"

text \<open>
  \<open>NodeGroup::onNodeRemoved(node)\<close>: the first weak pointer to the node is erased from
  the input list and from the output list. An expired weak pointer locks to null and never
  equals the (non-null) node.
\<close>

definition onNodeRemoved :: "group_state \<Rightarrow> nat \<Rightarrow> group_state" where
  "onNodeRemoved g node =
     g\<lparr>group_inputs := erase_first (\<lambda>w. w = Some node) (group_inputs g),
       group_outputs := erase_first (\<lambda>w. w = Some node) (group_outputs g)\<rparr>"

text \<open>
  \<open>NodeCollection::removeNode(node)\<close>: a null pointer returns at once; otherwise the
  first member with that address is erased and the virtual hook \<open>onNodeRemoved\<close> is
  called, whether or not a member was erased. For a collection that is not a group the
  hook is not in this file and changes nothing that is modelled here.
\<close>

definition removeNode :: "collection \<Rightarrow> nat option \<Rightarrow> collection" where
  "removeNode coll node =
     (case node of
        None \<Rightarrow> coll
      | Some p \<Rightarrow>
          \<lparr>nodes = erase_first (\<lambda>n. node_id (info n) = p) (nodes coll),
           isGroup = map_option (\<lambda>g. onNodeRemoved g p) (isGroup coll)\<rparr>)"

text \<open>
  \<open>NodeGroup::notifyNodeActivated(node)\<close>: the part that writes the group's lists. The
  calls to \<open>initializeInputs\<close> and \<open>onInputChanged\<close> go to other nodes and leave the lists
  alone.
\<close>

definition notifyNodeActivated :: "group_state \<Rightarrow> node \<Rightarrow> group_state" where
  "notifyNodeActivated g node =
     (if isActivatingGroup g then g
      else g\<lparr>group_inputs :=
                (if is_group_input (info node)
                 then group_inputs g @ [Some (node_id (info node))] else group_inputs g),
              group_outputs :=
                (if is_group_output (info node)
                 then group_outputs g @ [Some (node_id (info node))] else group_outputs g)\<rparr>)"

text \<open>
  A sequence of calls to \<open>addNode\<close> and \<open>removeNode\<close> on one collection.
\<close>

datatype coll_op = AddNode node | RemoveNode "nat option"

fun apply_op :: "collection \<Rightarrow> coll_op \<Rightarrow> collection" where
  "apply_op coll (AddNode n) = addNode coll n"
| "apply_op coll (RemoveNode p) = removeNode coll p"

fun apply_ops :: "collection \<Rightarrow> coll_op list \<Rightarrow> collection" where
  "apply_ops coll [] = coll"
| "apply_ops coll (x # xs) = apply_ops (apply_op coll x) xs"

text \<open>
  No two members carry the same script name.
\<close>

definition unique_script_names :: "collection \<Rightarrow> bool" where
  "unique_script_names coll = distinct (map (\<lambda>n. script_name (info n)) (nodes coll))"

text \<open>
  The caller's side of \<open>addNode\<close>: at each call, no member carries the script name of the
  node that is added, which is what a name returned by \<open>checkNodeName\<close> for a new node
  guarantees.
\<close>

fun names_resolved :: "collection \<Rightarrow> coll_op list \<Rightarrow> bool" where
  "names_resolved coll [] = True"
| "names_resolved coll (AddNode n # xs) =
     (\<not> foundNodeWithName (nodes coll) None (script_name (info n))
      \<and> names_resolved (addNode coll n) xs)"
| "names_resolved coll (RemoveNode p # xs) = names_resolved (removeNode coll p) xs"

text \<open>
  The node is recorded as an input or output terminal of the group.
\<close>

definition recorded_in_group :: "collection \<Rightarrow> nat \<Rightarrow> bool" where
  "recorded_in_group coll p =
     (case isGroup coll of
        None \<Rightarrow> False
      | Some g \<Rightarrow> Some p \<in> set (group_inputs g) \<or> Some p \<in> set (group_outputs g))"

text \<open>
  Some member has the address \<open>p\<close>.
\<close>

definition is_member :: "collection \<Rightarrow> nat \<Rightarrow> bool" where
  "is_member coll p = list_ex (\<lambda>n. node_id (info n) = p) (nodes coll)"

subsection \<open>Teardown\<close>

text \<open>
  The calls that teardown makes on the nodes, in the order they are made:
  \<open>quitAnyProcessing_blocking\<close> or \<open>quitAnyProcessing_non_blocking\<close> on a node,
  \<open>destroyNode\<close> on a node, and the final \<open>nodes.clear()\<close> of a collection, named by the
  group node that owns it (\<open>None\<close> for a collection that is not nested). What these calls
  do inside a node is outside this file; \<open>onNodesCleared\<close> only notifies the graph view
  and is left out.
\<close>

datatype event = QuitAnyProcessing bool nat | DestroyNode nat | ClearMembers "nat option"

text \<open>
  \<open>NodeCollection::quitAnyProcessingInternal(blocking)\<close>.
\<close>

function quitAnyProcessingInternal :: "node list \<Rightarrow> bool \<Rightarrow> event list" where
  "quitAnyProcessingInternal ns blocking =
     concat (map (\<lambda>n. QuitAnyProcessing blocking (node_id (info n))
                       # (case isEffectNodeGroup n of
                            None \<Rightarrow> []
                          | Some c \<Rightarrow> quitAnyProcessingInternal c blocking)) ns)"
  by pat_completeness auto

termination
  by (relation "measure (\<lambda>(ns, b). size_list size ns)") (auto dest: size_child_lt)

text \<open>
  \<open>NodeCollection::clearNodesInternal\<close>: on a snapshot of the members, first the loop
  that calls \<open>clearNodesInternal\<close> on every member that is a group, then the loop that
  calls \<open>destroyNode\<close> on every member, then the member list is cleared.
\<close>

function clearNodesInternal :: "nat option \<Rightarrow> node list \<Rightarrow> event list" where
  "clearNodesInternal owner nodesToDelete =
     concat (map (\<lambda>n. case isEffectNodeGroup n of
                         None \<Rightarrow> []
                       | Some c \<Rightarrow> clearNodesInternal (Some (node_id (info n))) c) nodesToDelete)
     @ map (\<lambda>n. DestroyNode (node_id (info n))) nodesToDelete
     @ [ClearMembers owner]"
  by pat_completeness auto

termination
  by (relation "measure (\<lambda>(ow, ns). size_list size ns)") (auto dest: size_child_lt)

text \<open>
  \<open>clearNodesBlocking\<close> and \<open>clearNodesNonBlocking\<close>.
\<close>

definition clearNodesBlocking :: "nat option \<Rightarrow> node list \<Rightarrow> event list" where
  "clearNodesBlocking owner ns = quitAnyProcessingInternal ns True @ clearNodesInternal owner ns"

definition clearNodesNonBlocking :: "nat option \<Rightarrow> node list \<Rightarrow> event list" where
  "clearNodesNonBlocking owner ns = clearNodesInternal owner ns"

text \<open>
  The members of a collection at every depth, each followed by the contents of its group.
\<close>

function nestedMembers :: "node list \<Rightarrow> node list" where
  "nestedMembers ns =
     concat (map (\<lambda>n. n # (case isEffectNodeGroup n of
                             None \<Rightarrow> []
                           | Some c \<Rightarrow> nestedMembers c)) ns)"
  by pat_completeness auto

termination
  by (relation "measure (size_list size)") (auto dest: size_child_lt)

declare quitAnyProcessingInternal.simps [simp del]

declare clearNodesInternal.simps [simp del]

declare nestedMembers.simps [simp del]

subsection \<open>Automatic connection\<close>

text \<open>
  The connections between nodes. Every node has a vector of input slots, each free
  (\<open>None\<close>) or connected to a node; \<open>known_nodes\<close> are the nodes that exist, so that the
  consumers of a node can be listed.
\<close>

record wiring =
  node_inputs :: "nat \<Rightarrow> nat option list"
  known_nodes :: "nat list"

text \<open>
  Modelled from the spec: the methods of \<open>Node\<close> that \<open>autoConnectNodes\<close> calls are not in
  this file. A node has "an ordered set of input slots" and "an output set (multiple
  consumers per node)": \<open>getMaxInputCount\<close> is the number of slots, \<open>swapInput\<close> puts a
  node into a slot whatever was there, \<open>disconnectInput\<close> frees the slots that hold a
  given node, \<open>getOutputs\<close> lists the consumers of a node with the slots through which
  each consumes it. The results of \<open>swapInput\<close> and \<open>disconnectInput\<close> are not read by
  \<open>autoConnectNodes\<close>.
\<close>

definition getMaxInputCount :: "wiring \<Rightarrow> nat \<Rightarrow> nat" where
  "getMaxInputCount w n = length (node_inputs w n)"

definition swapInput :: "wiring \<Rightarrow> nat \<Rightarrow> nat \<Rightarrow> int \<Rightarrow> wiring" where
  "swapInput w n input inputNumber =
     (if 0 \<le> inputNumber \<and> nat inputNumber < length (node_inputs w n)
      then w\<lparr>node_inputs := (node_inputs w)(n := (node_inputs w n)[nat inputNumber := Some input])\<rparr>
      else w)"

definition disconnectInput :: "wiring \<Rightarrow> nat \<Rightarrow> nat \<Rightarrow> wiring" where
  "disconnectInput w n input =
     w\<lparr>node_inputs := (node_inputs w)
          (n := map (\<lambda>slot. if slot = Some input then None else slot) (node_inputs w n))\<rparr>"

definition connected_slots :: "wiring \<Rightarrow> nat \<Rightarrow> nat \<Rightarrow> int list" where
  "connected_slots w consumer n =
     map int (filter (\<lambda>i. node_inputs w consumer ! i = Some n)
                     [0 ..< length (node_inputs w consumer)])"

definition getOutputs :: "wiring \<Rightarrow> nat \<Rightarrow> (nat \<times> int list) list" where
  "getOutputs w n =
     filter (\<lambda>(consumer, slots). slots \<noteq> [])
            (map (\<lambda>consumer. (consumer, connected_slots w consumer n)) (known_nodes w))"

text \<open>
  Modelled from the spec: the "preferred (first free, or first overridable) slot", here
  the first free slot, \<open>-1\<close> when there is none. \<open>autoConnectNodes\<close> takes the method
  \<open>getPreferredInputForConnection\<close> as a parameter; this one is for concrete inputs.
\<close>

definition first_free_input :: "wiring \<Rightarrow> nat \<Rightarrow> int" where
  "first_free_input w n =
     (case filter (\<lambda>i. node_inputs w n ! i = None) [0 ..< length (node_inputs w n)] of
        [] \<Rightarrow> -1
      | i # _ \<Rightarrow> int i)"

text \<open>
  The loop of the "connect as output" branch: every consumer of \<open>selected\<close> is
  disconnected from it and connected to \<open>created\<close> through the same slots.
\<close>

definition rewire_consumers :: "wiring \<Rightarrow> nat \<Rightarrow> nat \<Rightarrow> wiring" where
  "rewire_consumers w selected created =
     fold (\<lambda>(consumer, slots) w'.
             fold (\<lambda>i w''. swapInput w'' consumer created i) slots
                  (disconnectInput w' consumer selected))
          (getOutputs w selected) w"

text \<open>
  \<open>NodeCollection::autoConnectNodes(selected, created)\<close>, returning the result and the
  connections it leaves.
\<close>

definition autoConnectNodes ::
  "(wiring \<Rightarrow> nat \<Rightarrow> int) \<Rightarrow> wiring \<Rightarrow> node_info \<Rightarrow> node_info \<Rightarrow> bool \<times> wiring" where
  "autoConnectNodes getPreferredInputForConnection w selected created =
     (if getMaxInputCount w (node_id selected) = 0 \<and> getMaxInputCount w (node_id created) = 0
      then (False, w)
      else if is_output_node selected \<and> is_output_node created
      then (False, w)
      else
        let connectAsInput =
              (if is_output_node selected then True
               else if is_output_node created then False
               else if getMaxInputCount w (node_id created) = 0 then True
               else False)
        in if connectAsInput then
             (let selectedInput = getPreferredInputForConnection w (node_id selected)
              in if selectedInput \<noteq> -1
                 then (True, swapInput w (node_id selected) (node_id created) selectedInput)
                 else (False, w))
           else
             (let w1 = (if \<not> is_output_node created
                        then rewire_consumers w (node_id selected) (node_id created)
                        else w);
                  createdInput = getPreferredInputForConnection w1 (node_id created)
              in if createdInput \<noteq> -1
                 then (True, swapInput w1 (node_id created) (node_id selected) createdInput)
                 else (False, w1)))"

text \<open>
  Four nodes: 1 has one free slot, 2 has one slot fed by 9, 3 has one slot fed by 1.
\<close>

definition example_wiring :: wiring where
  "example_wiring =
     \<lparr>node_inputs = (\<lambda>n. if n = 1 then [None] else if n = 2 then [Some 9]
                          else if n = 3 then [Some 1] else []),
      known_nodes = [1, 2, 3, 9]\<rparr>"

subsection \<open>Reconstruction from persisted records\<close>

text \<open>
  A persisted node record. \<open>ser_id\<close> stands for the address of the record: the map from
  records to created nodes is keyed by the shared pointer. The two string maps are given as
  the lists of their entries in iteration order.
\<close>

datatype NodeSerialization = NodeSerialization
  (ser_id: nat)
  (ser_pluginID: string)
  (ser_pluginMajorVersion: int)
  (ser_pluginMinorVersion: int)
  (ser_nodeScriptName: string)
  (ser_inputs: "(string \<times> string) list")
  (ser_masks: "(string \<times> string) list")
  (ser_children: "NodeSerialization list")

text \<open>
  The entries that this file writes to the error log: the node could not be created, a
  stub replaced it, it was loaded with another major version, or an input label is neither
  a label nor a number.
\<close>

datatype log_entry =
    PluginMissing string int int
  | StubCreated string string int int
  | VersionMismatch string string int int
  | CouldNotFindInput string string


text \<open>
  \<open>NodeCollection::findSerializedNodeWithScriptName\<close>.
\<close>

definition findSerializedNodeWithScriptName ::
  "string \<Rightarrow> (NodeSerialization \<times> node) list \<Rightarrow> node list \<Rightarrow> bool \<Rightarrow> node option" where
  "findSerializedNodeWithScriptName nodeScriptName createdNodes allNodesInGroup allowSearchInAllNodes =
     (case find (\<lambda>(k, v). ser_nodeScriptName k = nodeScriptName) createdNodes of
        Some (k, v) \<Rightarrow> Some v
      | None \<Rightarrow>
          if allowSearchInAllNodes
          then find (\<lambda>n. script_name (info n) = nodeScriptName) allNodesInGroup
          else None)"

text \<open>
  Modelled from the spec: \<open>Node::getInputNumberFromLabel\<close> and \<open>isInputMask\<close> are not
  in this file. An input identifier is "a recognized port label" when a slot carries it,
  and each slot is "optionally mask-flagged".
\<close>

definition getInputNumberFromLabel :: "node_info \<Rightarrow> string \<Rightarrow> int" where
  "getInputNumberFromLabel n inputLabel =
     (case filter (\<lambda>i. input_labels n ! i = inputLabel) [0 ..< length (input_labels n)] of
        [] \<Rightarrow> -1
      | i # _ \<Rightarrow> int i)"

definition isInputMask :: "node_info \<Rightarrow> nat \<Rightarrow> bool" where
  "isInputMask n i = (i < length (input_masks n) \<and> input_masks n ! i)"

text \<open>
  The mask loop of \<open>restoreInput\<close>, with the loop counter \<open>i\<close> and the variables
  \<open>maskIndex\<close> and \<open>index\<close>. Both branches taken at a mask slot end in \<open>break\<close>: the one
  that assigns \<open>index = i\<close> and the one that increments \<open>maskIndex\<close>.
\<close>

function mask_search :: "(nat \<Rightarrow> bool) \<Rightarrow> nat \<Rightarrow> nat \<Rightarrow> int \<Rightarrow> int \<Rightarrow> int \<times> int" where
  "mask_search inputIsMask nInputs i maskIndex index =
     (if i < nInputs then
        (if inputIsMask i then
           (if maskIndex = index then (int i, maskIndex)
            else (index, maskIndex + 1))
         else mask_search inputIsMask nInputs (Suc i) maskIndex index)
      else (index, maskIndex))"
  by pat_completeness auto

termination
  by (relation "measure (\<lambda>(m, nInputs, i, mi, idx). nInputs - i)") auto

declare mask_search.simps [simp del]

text \<open>
  The first part of \<open>restoreInput\<close>: the slot index and the log entry. \<open>QString::toInt\<close>
  is a parameter; it returns \<open>None\<close> when \<open>ok\<close> is false.
\<close>

definition restoreInput_index ::
  "(string \<Rightarrow> int option) \<Rightarrow> wiring \<Rightarrow> node_info \<Rightarrow> string \<Rightarrow> string \<Rightarrow> bool
     \<Rightarrow> int \<times> log_entry list" where
  "restoreInput_index toInt w node inputLabel inputNodeScriptName isMaskInput =
     (let index = (if inputLabel = [] then -1 else getInputNumberFromLabel node inputLabel)
      in if index = -1 then
           (let index1 = (case toInt inputLabel of Some v \<Rightarrow> v | None \<Rightarrow> -1);
                entries = (if index1 = -1
                           then [CouldNotFindInput (script_name node) inputNodeScriptName]
                           else [])
            in if isMaskInput
               then (fst (mask_search (isInputMask node) (getMaxInputCount w (node_id node))
                            0 0 index1), entries)
               else (index1, entries))
         else (index, []))"

text \<open>
  \<open>restoreInput\<close>: the call \<open>node->swapInput(foundNode, index)\<close> is made when the
  referenced node is found, and nothing is done otherwise.
\<close>

definition restoreInput ::
  "(string \<Rightarrow> int option) \<Rightarrow> wiring \<Rightarrow> node_info \<Rightarrow> string \<Rightarrow> string
     \<Rightarrow> (NodeSerialization \<times> node) list \<Rightarrow> node list \<Rightarrow> bool \<Rightarrow> bool
     \<Rightarrow> log_entry list \<times> wiring" where
  "restoreInput toInt w node inputLabel inputNodeScriptName createdNodes allNodesInGroup
       allowSearchInAllNodes isMaskInput =
     (if inputNodeScriptName = [] then ([], w)
      else
        let (index, entries) =
              restoreInput_index toInt w node inputLabel inputNodeScriptName isMaskInput
        in if \<not> has_group node then (entries, w)
           else (case findSerializedNodeWithScriptName inputNodeScriptName createdNodes
                        allNodesInGroup allowSearchInAllNodes of
                   None \<Rightarrow> (entries, w)
                 | Some foundNode \<Rightarrow>
                     (entries, swapInput w (node_id node) (node_id (info foundNode)) index)))"












text \<open>
  Modelled from the spec: "attempt to parse it as a numeric port index"; a decimal parser
  for concrete inputs, in place of \<open>QString::toInt\<close>.
\<close>

definition digit_value :: "char \<Rightarrow> nat option" where
  "digit_value c =
     (let k = (of_char c :: nat) in if 48 \<le> k \<and> k \<le> 57 then Some (k - 48) else None)"

fun parse_digits :: "string \<Rightarrow> nat \<Rightarrow> nat option" where
  "parse_digits [] acc = Some acc"
| "parse_digits (c # cs) acc =
     (case digit_value c of None \<Rightarrow> None | Some d \<Rightarrow> parse_digits cs (10 * acc + d))"

definition toInt_decimal :: "string \<Rightarrow> int option" where
  "toInt_decimal s =
     (if s = [] then None
      else if hd s = CHR ''-'' then
        (if tl s = [] then None else map_option (\<lambda>n. - int n) (parse_digits (tl s) 0))
      else map_option int (parse_digits s 0))"

text \<open>
  A factory for concrete inputs: the node made for a record, when there is one, is added to
  the collection.
\<close>

definition factory_of ::
  "(NodeSerialization \<Rightarrow> node option) \<Rightarrow> node list \<Rightarrow> NodeSerialization \<Rightarrow> node option \<times> node list" where
  "factory_of f grp it = (f it, case f it of None \<Rightarrow> grp | Some n \<Rightarrow> grp @ [n])"

text \<open>
  A node with four slots, the last two of them masks.
\<close>

definition masked_node :: node_info where
  "masked_node = (plain_info 1 ''Merge1'')
      \<lparr>input_labels := [''A'', ''B'', ''Mask'', ''Matte''],
       input_masks := [False, False, True, True]\<rparr>"

definition masked_wiring :: wiring where
  "masked_wiring =
     \<lparr>node_inputs = (\<lambda>n. if n = 1 then [None, None, None, None] else []),
      known_nodes = [1, 2]\<rparr>"





text \<open>
  What the factory returns for a batch: it is called once per record, in order, each time
  on the member list that the previous call left. The result is the list of the nodes it
  returned (null included) and the member list after the last call.
\<close>

fun factory_run ::
  "(node list \<Rightarrow> NodeSerialization \<Rightarrow> node option \<times> node list) \<Rightarrow> node list
     \<Rightarrow> NodeSerialization list \<Rightarrow> node option list \<times> node list" where
  "factory_run create ms [] = ([], ms)"
| "factory_run create ms (it # rest) =
     (case create ms it of (n, ms') \<Rightarrow>
        (case factory_run create ms' rest of (ns, ms'') \<Rightarrow> (n # ns, ms'')))"








section \<open>Theorems\<close>

subsection \<open>Recursive listing\<close>

lemma getNodes_recursive_onlyActive: "getNodes_recursive coll out True = out"
  by simp

text \<open>
  Claim C2. The claim says that for both values of \<open>onlyActive\<close> every member is appended
  and every group is entered. With \<open>onlyActive = true\<close> the source skips every member:
  on a collection holding one plain node the output list stays empty, while the sibling
  listing \<open>getActiveNodes\<close> returns that node and \<open>onlyActive = false\<close> appends it.
\<close>

theorem getNodes_recursive_onlyActive_skips_all:
  "getNodes_recursive [Node (plain_info 1 ''Blur1'') None] [] True = []
   \<and> getNodes_recursive [Node (plain_info 1 ''Blur1'') None] [] False
       = [Node (plain_info 1 ''Blur1'') None]
   \<and> getActiveNodes [Node (plain_info 1 ''Blur1'') None] []
       = [Node (plain_info 1 ''Blur1'') None]"
  by (simp add: getActiveNodes_def)

subsection \<open>Frame range\<close>

text \<open>
  Claim C1. The claim says that three readers with ranges [1,10], [5,20], [0,3] give
  [0,20]: the first reader sets the range and the later ones only widen it. In the source
  the flag that selects "set" stays true for every reader of the top level, so each reader
  overwrites the range and the last one wins: the result is [0,3].
\<close>

theorem recomputeFrameRange_three_readers:
  "recomputeFrameRangeForAllReaders
     [Node (reader_info 1 ''Read1'' 1 10) None,
      Node (reader_info 2 ''Read2'' 5 20) None,
      Node (reader_info 3 ''Read3'' 0 3) None] (f0, l0) = Some (0, 3)"
  by (simp add: recomputeFrameRangeForAllReaders_def reader_info_def plain_info_def
      reader_step_def double_to_int_def INT_MIN_def INT_MAX_def)

subsection \<open>Script names\<close>

lemma checkNodeName_loop_free:
  "checkNodeName_loop ns node cpy a e nodeName no = Inr r \<Longrightarrow> \<not> foundNodeWithName ns node r"
  by (induction ns node cpy a e nodeName no rule: checkNodeName_loop.induct)
     (subst (asm) checkNodeName_loop.simps, auto split: if_splits)

lemma checkNodeName_loop_error:
  "(\<exists>err. checkNodeName_loop ns node cpy a e nodeName no = Inl err)
     \<longleftrightarrow> foundNodeWithName ns node nodeName \<and> (e \<or> \<not> a)"
proof (induction ns node cpy a e nodeName no rule: checkNodeName_loop.induct)
  case (1 ns node cpy appendDigit errorIfExists nodeName no)
  show ?case
    by (subst checkNodeName_loop.simps) (use 1 in \<open>auto split: if_splits\<close>)
qed

lemma string_of_nat_1: "string_of_nat 1 = ''1''" by code_simp
lemma string_of_nat_Suc0: "string_of_nat (Suc 0) = ''1''" by code_simp

lemma checkNodeName_loop_suffix_gen:
  "checkNodeName_loop ns node cpy a e nodeName no = Inr r \<Longrightarrow> a \<Longrightarrow>
   nodeName = cpy @ string_of_nat no \<Longrightarrow> \<exists>k\<ge>no. r = cpy @ string_of_nat k"
proof (induction ns node cpy a e nodeName no rule: checkNodeName_loop.induct)
  case (1 ns node cpy appendDigit errorIfExists nodeName no)
  show ?case
  proof (cases "foundNodeWithName ns node nodeName")
    case False
    with "1.prems"(1) have "r = nodeName"
      by (simp add: checkNodeName_loop.simps[of ns node cpy appendDigit errorIfExists nodeName no])
    with "1.prems"(3) show ?thesis by blast
  next
    case True
    show ?thesis
    proof (cases "errorIfExists \<or> \<not> appendDigit")
      case err: True
      with True "1.prems"(1) show ?thesis
        by (simp add: checkNodeName_loop.simps[of ns node cpy appendDigit errorIfExists nodeName no])
    next
      case cont: False
      with True "1.prems"(1)
      have rec: "checkNodeName_loop ns node cpy appendDigit errorIfExists
                   (cpy @ string_of_nat (Suc no)) (Suc no) = Inr r"
        by (simp add: checkNodeName_loop.simps[of ns node cpy appendDigit errorIfExists nodeName no])
      from "1.IH"[OF True cont rec "1.prems"(2) refl]
      obtain k where "Suc no \<le> k" "r = cpy @ string_of_nat k" by blast
      then have "no \<le> k \<and> r = cpy @ string_of_nat k" by simp
      then show ?thesis by blast
    qed
  qed
qed

lemma checkNodeName_loop_suffix:
  "checkNodeName_loop ns node cpy True e (cpy @ string_of_nat no) no = Inr r
     \<Longrightarrow> \<exists>k\<ge>no. r = cpy @ string_of_nat k"
  by (rule checkNodeName_loop_suffix_gen[OF _ TrueI refl])

text \<open>
  Claim C8. \<open>checkNodeName\<close> raises an error if and only if the base name is empty or
  normalizes to the empty string (invalid name), or the collection is a group and the
  normalized name is the script name of one of the group's knobs (naming conflict), or a
  member other than \<open>node\<close> carries the first candidate and \<open>errorIfExists\<close> is set or
  \<open>appendDigit\<close> is not (name exists). The first candidate is the normalized name, followed
  by \<open>1\<close> when \<open>appendDigit\<close> is set. In every other case it returns a name that no
  member other than \<open>node\<close> carries. The checks are made in this order, which fixes the
  error raised when several apply.
\<close>

theorem checkNodeName_outcome:
  "(let cpy = mk baseName;
        first = (if appendDigit then cpy @ string_of_nat 1 else cpy);
        res = checkNodeName mk coll node baseName appendDigit errorIfExists
    in ((\<exists>err. res = Inl err) \<longleftrightarrow>
          (baseName = [] \<or> cpy = []
           \<or> (case isGroup coll of None \<Rightarrow> False | Some g \<Rightarrow> cpy \<in> set (knob_names g))
           \<or> (foundNodeWithName (nodes coll) node first \<and> (errorIfExists \<or> \<not> appendDigit))))
       \<and> (if baseName = [] \<or> cpy = [] then res = Inl InvalidScriptName
          else if (case isGroup coll of None \<Rightarrow> False | Some g \<Rightarrow> cpy \<in> set (knob_names g))
          then res = Inl (NamingConflict cpy)
          else if foundNodeWithName (nodes coll) node first \<and> (errorIfExists \<or> \<not> appendDigit)
          then res = Inl (NameExists first)
          else (\<exists>r. res = Inr r \<and> \<not> foundNodeWithName (nodes coll) node r)))"
proof -
  define cpy where "cpy = mk baseName"
  define first where "first = (if appendDigit then cpy @ string_of_nat 1 else cpy)"
  define lp where "lp = checkNodeName_loop (nodes coll) node cpy appendDigit errorIfExists first 1"
  have err: "(\<exists>err. lp = Inl err) \<longleftrightarrow>
      foundNodeWithName (nodes coll) node first \<and> (errorIfExists \<or> \<not> appendDigit)"
    unfolding lp_def by (rule checkNodeName_loop_error)
  have which: "foundNodeWithName (nodes coll) node first \<and> (errorIfExists \<or> \<not> appendDigit)
      \<Longrightarrow> lp = Inl (NameExists first)"
    unfolding lp_def by (subst checkNodeName_loop.simps) simp
  have ok: "\<not> (foundNodeWithName (nodes coll) node first \<and> (errorIfExists \<or> \<not> appendDigit))
      \<Longrightarrow> \<exists>r. lp = Inr r \<and> \<not> foundNodeWithName (nodes coll) node r"
  proof -
    assume "\<not> (foundNodeWithName (nodes coll) node first \<and> (errorIfExists \<or> \<not> appendDigit))"
    with err have "\<not> (\<exists>err. lp = Inl err)" by simp
    then obtain r where r: "lp = Inr r" by (cases lp) auto
    then have "\<not> foundNodeWithName (nodes coll) node r"
      unfolding lp_def by (rule checkNodeName_loop_free)
    with r show ?thesis by blast
  qed
  have res: "checkNodeName mk coll node baseName appendDigit errorIfExists =
     (if baseName = [] \<or> cpy = [] then Inl InvalidScriptName
      else if (case isGroup coll of None \<Rightarrow> False | Some g \<Rightarrow> cpy \<in> set (knob_names g))
      then Inl (NamingConflict cpy) else lp)"
    unfolding checkNodeName_def cpy_def lp_def first_def Let_def by simp
  show ?thesis
    unfolding Let_def cpy_def[symmetric] first_def[symmetric] res
    using err which ok by auto
qed

lemma length3E:
  assumes "length xs = Suc (Suc (Suc 0))"
  obtains a b c where "xs = [a, b, c]"
  using assms by (auto simp: length_Suc_conv)

lemma last3: "3 < length l \<Longrightarrow>
  (l ! (length l - 1) = CHR ''X'' \<and> l ! (length l - 2) = CHR ''F'' \<and> l ! (length l - 3) = CHR ''O'')
   \<longleftrightarrow> drop (length l - 3) l = ''OFX''"
proof -
  assume len: "3 < length l"
  define n where "n = length l - 3"
  have l: "length l = n + 3" using len by (simp add: n_def)
  have "length (drop n l) = Suc (Suc (Suc 0))" using l by simp
  then obtain a b c where abc: "drop n l = [a, b, c]"
    by (rule length3E)
  have "drop n l ! 0 = l ! (n + 0)" "drop n l ! 1 = l ! (n + 1)" "drop n l ! 2 = l ! (n + 2)"
    using l by (simp_all del: drop_eq_Nil drop_eq_Nil2)
  with abc have d: "drop n l = [l ! n, l ! (n + 1), l ! (n + 2)]" by simp
  have "length l - 1 = n + 2" "length l - 2 = n + 1" "length l - 3 = n" using l by simp_all
  then show ?thesis using d by auto
qed

lemma initNodeName_unfold:
  "initNodeName OUT mk coll pluginID label =
     (if pluginID \<noteq> OUT
      then checkNodeName mk coll None (OFX_stripped label) True False
      else (case checkNodeName mk coll None (OFX_stripped label) False False of
              Inr nodeName \<Rightarrow> Inr nodeName
            | Inl e \<Rightarrow> checkNodeName mk coll None (OFX_stripped label) True False))"
proof (cases "3 < length label")
  case True
  from last3[OF True] show ?thesis
    unfolding initNodeName_def OFX_stripped_def Let_def by (auto split: sum.splits)
next
  case False
  then show ?thesis unfolding initNodeName_def OFX_stripped_def Let_def by simp
qed

lemma checkNodeName_digit_ok:
  assumes "baseName \<noteq> []" "mk baseName \<noteq> []"
    "\<not> (case isGroup coll of None \<Rightarrow> False | Some g \<Rightarrow> mk baseName \<in> set (knob_names g))"
  shows "\<exists>k\<ge>1. checkNodeName mk coll node baseName True False = Inr (mk baseName @ string_of_nat k)
          \<and> \<not> foundNodeWithName (nodes coll) node (mk baseName @ string_of_nat k)"
proof -
  let ?lp = "checkNodeName_loop (nodes coll) node (mk baseName) True False
               (mk baseName @ string_of_nat 1) 1"
  have res: "checkNodeName mk coll node baseName True False = ?lp"
    using assms unfolding checkNodeName_def Let_def by simp
  from checkNodeName_loop_error[of "nodes coll" node "mk baseName" True False "mk baseName @ string_of_nat 1" 1]
  have "\<not> (\<exists>err. ?lp = Inl err)" by simp
  then obtain r where r: "?lp = Inr r" by (cases ?lp) auto
  from checkNodeName_loop_suffix[OF r] obtain k where k: "k \<ge> 1" "r = mk baseName @ string_of_nat k"
    by blast
  from checkNodeName_loop_free[OF r] have "\<not> foundNodeWithName (nodes coll) node r" .
  with r k res show ?thesis by auto
qed

lemma checkNodeName_nodigit:
  assumes "baseName \<noteq> []" "mk baseName \<noteq> []"
    "\<not> (case isGroup coll of None \<Rightarrow> False | Some g \<Rightarrow> mk baseName \<in> set (knob_names g))"
  shows "checkNodeName mk coll node baseName False False =
           (if foundNodeWithName (nodes coll) node (mk baseName)
            then Inl (NameExists (mk baseName)) else Inr (mk baseName))"
  using assms unfolding checkNodeName_def Let_def
  by (simp add: checkNodeName_loop.simps[of _ _ _ False])

lemma checkNodeName_invalid:
  "baseName = [] \<or> mk baseName = [] \<Longrightarrow> checkNodeName mk coll node baseName a e = Inl InvalidScriptName"
  unfolding checkNodeName_def Let_def by auto

lemma checkNodeName_conflict:
  "baseName \<noteq> [] \<Longrightarrow> mk baseName \<noteq> [] \<Longrightarrow>
   (case isGroup coll of None \<Rightarrow> False | Some g \<Rightarrow> mk baseName \<in> set (knob_names g))
   \<Longrightarrow> checkNodeName mk coll node baseName a e = Inl (NamingConflict (mk baseName))"
  unfolding checkNodeName_def Let_def by simp

text \<open>
  Claim C6, as amended. The base name is the plug-in label without its last three
  characters when the label has more than three characters and ends in \<open>OFX\<close>, and the
  label itself otherwise. When the base name is invalid or clashes with a knob of the
  group, \<open>initNodeName\<close> raises that error. Otherwise the output plug-in receives the
  normalized base name without a suffix when no member carries it, and in every other case
  (another plug-in, or the bare name is taken) the name is the normalized base name followed
  by a decimal number \<open>k \<ge> 1\<close> and no member carries it.
\<close>

theorem initNodeName_outcome:
  "(let baseName = (if 3 < length pluginLabel \<and> drop (length pluginLabel - 3) pluginLabel = ''OFX''
                    then take (length pluginLabel - 3) pluginLabel else pluginLabel);
        cpy = mk baseName;
        res = initNodeName OUT mk coll pluginID pluginLabel
    in if baseName = [] \<or> cpy = [] then res = Inl InvalidScriptName
       else if (case isGroup coll of None \<Rightarrow> False | Some g \<Rightarrow> cpy \<in> set (knob_names g))
       then res = Inl (NamingConflict cpy)
       else if pluginID = OUT \<and> \<not> foundNodeWithName (nodes coll) None cpy
       then res = Inr cpy
       else (\<exists>k\<ge>1. res = Inr (cpy @ string_of_nat k)
                \<and> \<not> foundNodeWithName (nodes coll) None (cpy @ string_of_nat k)))"
proof -
  define baseName where "baseName = OFX_stripped pluginLabel"
  define cpy where "cpy = mk baseName"
  define conflict where
    "conflict = (case isGroup coll of None \<Rightarrow> False | Some g \<Rightarrow> cpy \<in> set (knob_names g))"
  define res where "res = initNodeName OUT mk coll pluginID pluginLabel"
  have res_eq: "res =
     (if pluginID \<noteq> OUT
      then checkNodeName mk coll None baseName True False
      else (case checkNodeName mk coll None baseName False False of
              Inr nodeName \<Rightarrow> Inr nodeName
            | Inl e \<Rightarrow> checkNodeName mk coll None baseName True False))"
    unfolding res_def baseName_def by (rule initNodeName_unfold)
  have goal: "if baseName = [] \<or> cpy = [] then res = Inl InvalidScriptName
       else if conflict then res = Inl (NamingConflict cpy)
       else if pluginID = OUT \<and> \<not> foundNodeWithName (nodes coll) None cpy
       then res = Inr cpy
       else (\<exists>k\<ge>1. res = Inr (cpy @ string_of_nat k)
                \<and> \<not> foundNodeWithName (nodes coll) None (cpy @ string_of_nat k))"
  proof (cases "baseName = [] \<or> cpy = []")
    case True
    then have "\<And>a e. checkNodeName mk coll None baseName a e = Inl InvalidScriptName"
      unfolding cpy_def by (rule checkNodeName_invalid)
    with True show ?thesis by (simp add: res_eq)
  next
    case valid: False
    show ?thesis
    proof (cases conflict)
      case True
      with valid have "\<And>a e. checkNodeName mk coll None baseName a e = Inl (NamingConflict cpy)"
        unfolding cpy_def conflict_def by (simp add: checkNodeName_conflict)
      with valid True show ?thesis by (simp add: res_eq)
    next
      case False
      from valid False have a: "baseName \<noteq> []" "mk baseName \<noteq> []"
        "\<not> (case isGroup coll of None \<Rightarrow> False | Some g \<Rightarrow> mk baseName \<in> set (knob_names g))"
        unfolding cpy_def conflict_def by simp_all
      note dig = checkNodeName_digit_ok[where mk=mk and baseName=baseName and coll=coll
          and node=None, OF a, folded cpy_def]
      note nod = checkNodeName_nodigit[where mk=mk and baseName=baseName and coll=coll
          and node=None, OF a, folded cpy_def]
      from valid False dig nod show ?thesis
        by (auto simp: res_eq)
    qed
  qed
  show ?thesis
    using goal unfolding Let_def baseName_def OFX_stripped_def cpy_def conflict_def res_def .
qed

text \<open>
  Claim C6 as stated fails: a label that ends in \<open>FX\<close> but not in \<open>OFX\<close> keeps its suffix
  (\<open>BlurFX\<close> gives \<open>BlurFX1\<close>, not \<open>Blur1\<close>), and what is removed from \<open>BlurOFX\<close> is
  the three characters \<open>OFX\<close>.
\<close>

theorem initNodeName_FX_suffix_kept:
  "initNodeName ''fr.inria.built-in.Output'' makeNameScriptFriendly_spec
     \<lparr>nodes = [], isGroup = None\<rparr> ''net.sf.openfx.BlurPlugin'' ''BlurFX'' = Inr ''BlurFX1''
   \<and> initNodeName ''fr.inria.built-in.Output'' makeNameScriptFriendly_spec
     \<lparr>nodes = [], isGroup = None\<rparr> ''net.sf.openfx.BlurPlugin'' ''BlurFX'' \<noteq> Inr ''Blur1''
   \<and> initNodeName ''fr.inria.built-in.Output'' makeNameScriptFriendly_spec
     \<lparr>nodes = [], isGroup = None\<rparr> ''net.sf.openfx.BlurPlugin'' ''BlurOFX'' = Inr ''Blur1''"
  by code_simp

subsection \<open>Membership\<close>

lemma erase_first_absent: "\<not> list_ex P xs \<Longrightarrow> erase_first P xs = xs"
  by (induction xs) auto

lemma set_erase_first: "set (erase_first P xs) \<subseteq> set xs"
  by (induction xs) auto

lemma distinct_map_erase_first:
  "distinct (map f xs) \<Longrightarrow> distinct (map f (erase_first P xs))"
proof (induction xs)
  case Nil
  then show ?case by simp
next
  case (Cons x xs)
  then show ?case using set_erase_first[of P xs] by auto
qed

lemma foundNodeWithName_null:
  "foundNodeWithName ns None name \<longleftrightarrow> name \<in> set (map (\<lambda>n. script_name (info n)) ns)"
  by (auto simp: foundNodeWithName_def list_ex_iff)

lemma unique_addNode:
  "unique_script_names coll \<Longrightarrow> \<not> foundNodeWithName (nodes coll) None (script_name (info n))
     \<Longrightarrow> unique_script_names (addNode coll n)"
  by (simp add: unique_script_names_def addNode_def foundNodeWithName_null)

lemma unique_removeNode:
  "unique_script_names coll \<Longrightarrow> unique_script_names (removeNode coll p)"
  by (cases p) (simp_all add: unique_script_names_def removeNode_def distinct_map_erase_first)

text \<open>
  Claim C9, as amended. Starting from a collection with unique script names, a sequence of
  \<open>addNode\<close> and \<open>removeNode\<close> calls in which every added node carries a script name that
  no member carries at that moment leaves the script names unique. \<open>removeNode\<close> never
  breaks uniqueness; \<open>addNode\<close> relies on its caller.
\<close>

theorem unique_names_preserved:
  "unique_script_names coll \<Longrightarrow> names_resolved coll ops
     \<Longrightarrow> unique_script_names (apply_ops coll ops)"
proof (induction coll ops rule: names_resolved.induct)
  case (1 coll)
  then show ?case by simp
next
  case (2 coll n xs)
  then show ?case by (simp add: unique_addNode)
next
  case (3 coll p xs)
  then show ?case by (simp add: unique_removeNode)
qed

theorem unique_names_preserved_witness:
  "unique_script_names \<lparr>nodes = [], isGroup = None\<rparr>
   \<and> names_resolved \<lparr>nodes = [], isGroup = None\<rparr>
        [AddNode (Node (plain_info 1 ''Blur1'') None), AddNode (Node (plain_info 2 ''Blur2'') None),
         RemoveNode (Some 1), AddNode (Node (plain_info 3 ''Blur1'') None)]
   \<and> unique_script_names (apply_ops \<lparr>nodes = [], isGroup = None\<rparr>
        [AddNode (Node (plain_info 1 ''Blur1'') None), AddNode (Node (plain_info 2 ''Blur2'') None),
         RemoveNode (Some 1), AddNode (Node (plain_info 3 ''Blur1'') None)])
   \<and> map (\<lambda>n. node_id (info n)) (nodes (apply_ops \<lparr>nodes = [], isGroup = None\<rparr>
        [AddNode (Node (plain_info 1 ''Blur1'') None), AddNode (Node (plain_info 2 ''Blur2'') None),
         RemoveNode (Some 1), AddNode (Node (plain_info 3 ''Blur1'') None)])) = [2, 3]"
proof -
  let ?c = "\<lparr>nodes = [], isGroup = None\<rparr>"
  let ?ops = "[AddNode (Node (plain_info 1 ''Blur1'') None), AddNode (Node (plain_info 2 ''Blur2'') None),
         RemoveNode (Some 1), AddNode (Node (plain_info 3 ''Blur1'') None)]"
  have u: "unique_script_names ?c" by (simp add: unique_script_names_def)
  have r: "names_resolved ?c ?ops"
    by (simp add: addNode_def removeNode_def foundNodeWithName_def plain_info_def)
  have ids: "map (\<lambda>n. node_id (info n)) (nodes (apply_ops ?c ?ops)) = [2, 3]"
    by (simp add: addNode_def removeNode_def plain_info_def)
  from unique_names_preserved[OF u r] u r ids show ?thesis by blast
qed

text \<open>
  Claim C9 as stated fails: \<open>addNode\<close> checks nothing, so two calls with nodes that carry
  the same script name give two members with that name.
\<close>

theorem addNode_duplicate_script_name:
  "\<not> unique_script_names (apply_ops \<lparr>nodes = [], isGroup = None\<rparr>
        [AddNode (Node (plain_info 1 ''Blur1'') None), AddNode (Node (plain_info 2 ''Blur1'') None)])"
  by (simp add: unique_script_names_def addNode_def plain_info_def)

lemma onNodeRemoved_absent:
  "Some p \<notin> set (group_inputs g) \<Longrightarrow> Some p \<notin> set (group_outputs g) \<Longrightarrow> onNodeRemoved g p = g"
  by (simp add: onNodeRemoved_def erase_first_absent list_ex_iff)

lemma erase_first_present: "list_ex P xs \<Longrightarrow> length (erase_first P xs) < length xs"
  by (induction xs) auto

lemma onNodeRemoved_present:
  "Some p \<in> set (group_inputs g) \<or> Some p \<in> set (group_outputs g) \<Longrightarrow> onNodeRemoved g p \<noteq> g"
proof
  assume rec: "Some p \<in> set (group_inputs g) \<or> Some p \<in> set (group_outputs g)"
  assume eq: "onNodeRemoved g p = g"
  have i: "erase_first (\<lambda>w. w = Some p) (group_inputs g) = group_inputs g"
    using arg_cong[OF eq, of group_inputs] by (simp add: onNodeRemoved_def)
  have o: "erase_first (\<lambda>w. w = Some p) (group_outputs g) = group_outputs g"
    using arg_cong[OF eq, of group_outputs] by (simp add: onNodeRemoved_def)
  from rec show False
  proof
    assume "Some p \<in> set (group_inputs g)"
    then have "list_ex (\<lambda>w. w = Some p) (group_inputs g)" by (simp add: list_ex_iff)
    from erase_first_present[OF this] i show False by simp
  next
    assume "Some p \<in> set (group_outputs g)"
    then have "list_ex (\<lambda>w. w = Some p) (group_outputs g)" by (simp add: list_ex_iff)
    from erase_first_present[OF this] o show False by simp
  qed
qed

text \<open>
  Claim C7, as amended. \<open>removeNode\<close> with a null node changes nothing. With a node that
  is not a member, the membership list is unchanged and the group's lists are those that
  \<open>onNodeRemoved\<close> returns; the whole collection is unchanged if and only if the node is not
  recorded in the group's input or output list (never, for a collection that is not a
  group).
\<close>

theorem removeNode_null_or_absent:
  "removeNode coll None = coll
   \<and> (\<not> is_member coll p \<longrightarrow>
        nodes (removeNode coll (Some p)) = nodes coll
        \<and> isGroup (removeNode coll (Some p)) = map_option (\<lambda>g. onNodeRemoved g p) (isGroup coll)
        \<and> (removeNode coll (Some p) = coll \<longleftrightarrow> \<not> recorded_in_group coll p))"
proof -
  have null: "removeNode coll None = coll" by (simp add: removeNode_def)
  have absent: "nodes (removeNode coll (Some p)) = nodes coll" if "\<not> is_member coll p"
    using that by (simp add: removeNode_def is_member_def erase_first_absent)
  have grp: "isGroup (removeNode coll (Some p)) = map_option (\<lambda>g. onNodeRemoved g p) (isGroup coll)"
    by (simp add: removeNode_def)
  have same: "removeNode coll (Some p) = coll"
    if m: "\<not> is_member coll p" and r: "\<not> recorded_in_group coll p"
  proof -
    have "map_option (\<lambda>g. onNodeRemoved g p) (isGroup coll) = isGroup coll"
      using r by (cases "isGroup coll") (simp_all add: recorded_in_group_def onNodeRemoved_absent)
    with absent[OF m] grp show ?thesis by simp
  qed
  have differs: "removeNode coll (Some p) \<noteq> coll" if r: "recorded_in_group coll p"
  proof
    assume eq: "removeNode coll (Some p) = coll"
    from r obtain g where g: "isGroup coll = Some g"
      and rec: "Some p \<in> set (group_inputs g) \<or> Some p \<in> set (group_outputs g)"
      by (cases "isGroup coll") (auto simp: recorded_in_group_def)
    from grp eq g have "onNodeRemoved g p = g" by simp
    with onNodeRemoved_present[OF rec] show False by simp
  qed
  from null absent grp same differs show ?thesis by blast
qed

theorem removeNode_null_or_absent_witness:
  "\<not> is_member \<lparr>nodes = [Node (plain_info 1 ''Blur1'') None],
        isGroup = Some \<lparr>group_inputs = [Some 5], group_outputs = [], knob_names = [],
                         isActivatingGroup = False\<rparr>\<rparr> 2
   \<and> \<not> recorded_in_group \<lparr>nodes = [Node (plain_info 1 ''Blur1'') None],
        isGroup = Some \<lparr>group_inputs = [Some 5], group_outputs = [], knob_names = [],
                         isActivatingGroup = False\<rparr>\<rparr> 2
   \<and> removeNode \<lparr>nodes = [Node (plain_info 1 ''Blur1'') None],
        isGroup = Some \<lparr>group_inputs = [Some 5], group_outputs = [], knob_names = [],
                         isActivatingGroup = False\<rparr>\<rparr> (Some 2)
       = \<lparr>nodes = [Node (plain_info 1 ''Blur1'') None],
        isGroup = Some \<lparr>group_inputs = [Some 5], group_outputs = [], knob_names = [],
                         isActivatingGroup = False\<rparr>\<rparr>"
proof -
  let ?c = "\<lparr>nodes = [Node (plain_info 1 ''Blur1'') None],
        isGroup = Some \<lparr>group_inputs = [Some 5], group_outputs = [], knob_names = [],
                         isActivatingGroup = False\<rparr>\<rparr>"
  have m: "\<not> is_member ?c 2" by (simp add: is_member_def plain_info_def)
  have r: "\<not> recorded_in_group ?c 2" by (simp add: recorded_in_group_def)
  from removeNode_null_or_absent[of ?c 2] m r have "removeNode ?c (Some 2) = ?c" by blast
  with m r show ?thesis by blast
qed

text \<open>
  Claim C7 as stated fails: the hook is called for a node that is not a member too. A group
  that was notified of the activation of an input terminal it does not hold records it;
  \<open>removeNode\<close> of that node leaves the (empty) membership list alone and erases the
  terminal from the input list.
\<close>

theorem removeNode_absent_prunes_inputs:
  "\<not> is_member
       \<lparr>nodes = [],
        isGroup = Some (notifyNodeActivated
          \<lparr>group_inputs = [], group_outputs = [], knob_names = [], isActivatingGroup = False\<rparr>
          (Node ((plain_info 7 ''Input1'')\<lparr>is_group_input := True\<rparr>) None))\<rparr> 7
   \<and> map_option group_inputs (isGroup
       \<lparr>nodes = [],
        isGroup = Some (notifyNodeActivated
          \<lparr>group_inputs = [], group_outputs = [], knob_names = [], isActivatingGroup = False\<rparr>
          (Node ((plain_info 7 ''Input1'')\<lparr>is_group_input := True\<rparr>) None))\<rparr>) = Some [Some 7]
   \<and> map_option group_inputs (isGroup (removeNode
       \<lparr>nodes = [],
        isGroup = Some (notifyNodeActivated
          \<lparr>group_inputs = [], group_outputs = [], knob_names = [], isActivatingGroup = False\<rparr>
          (Node ((plain_info 7 ''Input1'')\<lparr>is_group_input := True\<rparr>) None))\<rparr> (Some 7))) = Some []"
  by (simp add: is_member_def removeNode_def notifyNodeActivated_def onNodeRemoved_def plain_info_def)

subsection \<open>Teardown\<close>

lemma nestedMembers_cases:
  "g \<in> set (nestedMembers ns) \<longleftrightarrow>
     g \<in> set ns \<or> (\<exists>h c. h \<in> set ns \<and> isEffectNodeGroup h = Some c \<and> g \<in> set (nestedMembers c))"
proof
  assume "g \<in> set (nestedMembers ns)"
  then obtain n where n: "n \<in> set ns"
    and g: "g \<in> set (n # (case isEffectNodeGroup n of None \<Rightarrow> [] | Some c \<Rightarrow> nestedMembers c))"
    by (subst (asm) nestedMembers.simps) auto
  show "g \<in> set ns \<or> (\<exists>h c. h \<in> set ns \<and> isEffectNodeGroup h = Some c \<and> g \<in> set (nestedMembers c))"
  proof (cases "isEffectNodeGroup n")
    case None
    with n g show ?thesis by auto
  next
    case (Some c)
    with n g show ?thesis by auto
  qed
next
  assume "g \<in> set ns \<or> (\<exists>h c. h \<in> set ns \<and> isEffectNodeGroup h = Some c \<and> g \<in> set (nestedMembers c))"
  then show "g \<in> set (nestedMembers ns)"
  proof
    assume "g \<in> set ns"
    then show ?thesis by (subst nestedMembers.simps) auto
  next
    assume "\<exists>h c. h \<in> set ns \<and> isEffectNodeGroup h = Some c \<and> g \<in> set (nestedMembers c)"
    then obtain h c where h: "h \<in> set ns" "isEffectNodeGroup h = Some c" "g \<in> set (nestedMembers c)"
      by blast
    then have "g \<in> set (h # (case isEffectNodeGroup h of None \<Rightarrow> [] | Some c \<Rightarrow> nestedMembers c))"
      by simp
    with h(1) show ?thesis by (subst nestedMembers.simps) (simp only: set_concat set_map, blast)
  qed
qed

lemma concat_map_split:
  "x \<in> set xs \<Longrightarrow> \<exists>P Q. concat (map f xs) = P @ f x @ Q"
proof -
  assume "x \<in> set xs"
  then obtain ys zs where "xs = ys @ x # zs" by (auto simp: in_set_conv_decomp)
  then have "concat (map f xs) = concat (map f ys) @ f x @ concat (map f zs)" by simp
  then show ?thesis by blast
qed

lemma clear_segment:
  assumes "h \<in> set ns" "isEffectNodeGroup h = Some c"
  shows "\<exists>P Q. clearNodesInternal owner ns
           = P @ clearNodesInternal (Some (node_id (info h))) c @ Q"
proof -
  let ?f = "\<lambda>n. case isEffectNodeGroup n of
                         None \<Rightarrow> []
                       | Some c \<Rightarrow> clearNodesInternal (Some (node_id (info n))) c"
  from concat_map_split[OF assms(1), of ?f] obtain P Q where
    "concat (map ?f ns) = P @ ?f h @ Q" by blast
  with assms(2) have "clearNodesInternal owner ns =
      P @ clearNodesInternal (Some (node_id (info h))) c
        @ (Q @ map (\<lambda>n. DestroyNode (node_id (info n))) ns @ [ClearMembers owner])"
    by (subst clearNodesInternal.simps) simp
  then show ?thesis by blast
qed

lemma destroy_top_level:
  assumes "g \<in> set ns"
  shows "\<exists>X Y. clearNodesInternal owner ns =
            (concat (map (\<lambda>n. case isEffectNodeGroup n of
                         None \<Rightarrow> []
                       | Some c \<Rightarrow> clearNodesInternal (Some (node_id (info n))) c) ns) @ X)
            @ DestroyNode (node_id (info g)) # Y"
proof -
  from assms obtain ys zs where "ns = ys @ g # zs" by (auto simp: in_set_conv_decomp)
  then have "map (\<lambda>n. DestroyNode (node_id (info n))) ns =
      map (\<lambda>n. DestroyNode (node_id (info n))) ys @ DestroyNode (node_id (info g))
        # map (\<lambda>n. DestroyNode (node_id (info n))) zs" by simp
  then have "clearNodesInternal owner ns =
      (concat (map (\<lambda>n. case isEffectNodeGroup n of
                         None \<Rightarrow> []
                       | Some c \<Rightarrow> clearNodesInternal (Some (node_id (info n))) c) ns)
         @ map (\<lambda>n. DestroyNode (node_id (info n))) ys)
      @ DestroyNode (node_id (info g))
        # (map (\<lambda>n. DestroyNode (node_id (info n))) zs @ [ClearMembers owner])"
    by (subst clearNodesInternal.simps) simp
  then show ?thesis by blast
qed

lemma all_members_destroyed:
  "m \<in> set (nestedMembers ns) \<Longrightarrow> DestroyNode (node_id (info m)) \<in> set (clearNodesInternal owner ns)"
proof (induction owner ns arbitrary: m rule: clearNodesInternal.induct)
  case (1 owner ns)
  from "1.prems" consider (top) "m \<in> set ns"
    | (deep) h c where "h \<in> set ns" "isEffectNodeGroup h = Some c" "m \<in> set (nestedMembers c)"
    by (auto simp: nestedMembers_cases[of m ns])
  then show ?case
  proof cases
    case top
    from destroy_top_level[OF top, of owner] obtain X Y where
      "clearNodesInternal owner ns =
         (concat (map (\<lambda>n. case isEffectNodeGroup n of
                         None \<Rightarrow> []
                       | Some c \<Rightarrow> clearNodesInternal (Some (node_id (info n))) c) ns) @ X)
            @ DestroyNode (node_id (info m)) # Y" by blast
    then show ?thesis by simp
  next
    case deep
    from "1.IH"[OF deep(1,2,3)]
    have "DestroyNode (node_id (info m)) \<in> set (clearNodesInternal (Some (node_id (info h))) c)" .
    moreover from clear_segment[OF deep(1,2), of owner] obtain P Q where
      "clearNodesInternal owner ns = P @ clearNodesInternal (Some (node_id (info h))) c @ Q"
      by blast
    ultimately show ?thesis by simp
  qed
qed

lemma members_before_group:
  "g \<in> set (nestedMembers ns) \<Longrightarrow> isEffectNodeGroup g = Some c \<Longrightarrow> m \<in> set (nestedMembers c)
   \<Longrightarrow> \<exists>A B. clearNodesInternal owner ns = A @ DestroyNode (node_id (info g)) # B
            \<and> DestroyNode (node_id (info m)) \<in> set A"
proof (induction owner ns arbitrary: g c m rule: clearNodesInternal.induct)
  case (1 owner ns)
  from "1.prems"(1) consider (top) "g \<in> set ns"
    | (deep) h c' where "h \<in> set ns" "isEffectNodeGroup h = Some c'" "g \<in> set (nestedMembers c')"
    by (auto simp: nestedMembers_cases[of g ns])
  then show ?case
  proof cases
    case top
    let ?R = "concat (map (\<lambda>n. case isEffectNodeGroup n of
                         None \<Rightarrow> []
                       | Some c \<Rightarrow> clearNodesInternal (Some (node_id (info n))) c) ns)"
    from destroy_top_level[OF top, of owner] obtain X Y where
      split: "clearNodesInternal owner ns = (?R @ X) @ DestroyNode (node_id (info g)) # Y" by blast
    from all_members_destroyed[OF "1.prems"(3)]
    have "DestroyNode (node_id (info m)) \<in> set (clearNodesInternal (Some (node_id (info g))) c)" .
    moreover have "set (clearNodesInternal (Some (node_id (info g))) c) \<subseteq> set ?R"
    proof -
      from concat_map_split[OF top, of "\<lambda>n. case isEffectNodeGroup n of
                         None \<Rightarrow> []
                       | Some c \<Rightarrow> clearNodesInternal (Some (node_id (info n))) c"] "1.prems"(2)
      obtain P Q where eq: "?R = P @ clearNodesInternal (Some (node_id (info g))) c @ Q"
        by auto
      show ?thesis unfolding eq by auto
    qed
    ultimately have "DestroyNode (node_id (info m)) \<in> set ?R" by (rule rev_subsetD)
    then have "DestroyNode (node_id (info m)) \<in> set ?R \<union> set X" by (rule UnI1)
    then have "DestroyNode (node_id (info m)) \<in> set (?R @ X)" by (simp only: set_append)
    with split show ?thesis by blast
  next
    case deep
    from "1.IH"[OF deep(1,2,3) "1.prems"(2,3)] obtain A B where
      ab: "clearNodesInternal (Some (node_id (info h))) c' = A @ DestroyNode (node_id (info g)) # B"
      and m: "DestroyNode (node_id (info m)) \<in> set A" by blast
    from clear_segment[OF deep(1,2), of owner] obtain P Q where
      "clearNodesInternal owner ns = P @ clearNodesInternal (Some (node_id (info h))) c' @ Q" by blast
    with ab have "clearNodesInternal owner ns = (P @ A) @ DestroyNode (node_id (info g)) # (B @ Q)"
      by simp
    moreover from m have "DestroyNode (node_id (info m)) \<in> set (P @ A)" by simp
    ultimately show ?thesis by blast
  qed
qed

lemma count_list_concat_map:
  "count_list (concat (map f xs)) x = sum_list (map (\<lambda>y. count_list (f y) x) xs)"
  by (induction xs) simp_all

lemma count_list_destroy_map:
  "count_list (map (\<lambda>n. DestroyNode (node_id (info n))) ns) (DestroyNode i)
     = sum_list (map (\<lambda>n. if node_id (info n) = i then 1 else 0) ns)"
  by (induction ns) simp_all

lemma sum_list_map_cong:
  "(\<And>x. x \<in> set xs \<Longrightarrow> f x = g x) \<Longrightarrow> sum_list (map f xs) = (sum_list (map g xs) :: nat)"
  by (induction xs) simp_all

lemma sum_list_map_add:
  "sum_list (map (\<lambda>x. f x + g x) xs) = (sum_list (map f xs) + sum_list (map g xs) :: nat)"
  by (induction xs) simp_all

lemma destroyed_once:
  "count_list (clearNodesInternal owner ns) (DestroyNode i)
     = count_list (map (\<lambda>n. node_id (info n)) (nestedMembers ns)) i"
proof (induction owner ns rule: clearNodesInternal.induct)
  case (1 owner ns)
  let ?sub = "\<lambda>n. case isEffectNodeGroup n of
                         None \<Rightarrow> []
                       | Some c \<Rightarrow> clearNodesInternal (Some (node_id (info n))) c"
  let ?nest = "\<lambda>n. case isEffectNodeGroup n of None \<Rightarrow> [] | Some c \<Rightarrow> nestedMembers c"
  let ?here = "\<lambda>n. if node_id (info n) = i then 1 else (0::nat)"
  have pointwise: "count_list (?sub n) (DestroyNode i)
      = count_list (map (\<lambda>n. node_id (info n)) (?nest n)) i" if "n \<in> set ns" for n
  proof (cases "isEffectNodeGroup n")
    case None
    then show ?thesis by simp
  next
    case (Some c)
    with "1.IH"[OF that Some] show ?thesis by simp
  qed
  have lhs: "count_list (clearNodesInternal owner ns) (DestroyNode i)
      = sum_list (map (\<lambda>n. count_list (?sub n) (DestroyNode i)) ns) + sum_list (map ?here ns)"
    by (subst clearNodesInternal.simps)
       (simp add: count_list_concat_map count_list_destroy_map)
  have "map (\<lambda>n. node_id (info n)) (nestedMembers ns)
      = concat (map (\<lambda>n. node_id (info n) # map (\<lambda>n. node_id (info n)) (?nest n)) ns)"
    by (subst nestedMembers.simps) (simp add: map_concat comp_def)
  then have "count_list (map (\<lambda>n. node_id (info n)) (nestedMembers ns)) i
      = sum_list (map (\<lambda>n. count_list
            (node_id (info n) # map (\<lambda>n. node_id (info n)) (?nest n)) i) ns)"
    by (simp only: count_list_concat_map)
  also have "\<dots> = sum_list (map (\<lambda>n. ?here n
            + count_list (map (\<lambda>n. node_id (info n)) (?nest n)) i) ns)"
    by (rule sum_list_map_cong) simp
  finally have rhs: "count_list (map (\<lambda>n. node_id (info n)) (nestedMembers ns)) i
      = sum_list (map (\<lambda>n. ?here n + count_list (map (\<lambda>n. node_id (info n)) (?nest n)) i) ns)" .
  have "sum_list (map (\<lambda>n. count_list (?sub n) (DestroyNode i)) ns)
      = sum_list (map (\<lambda>n. count_list (map (\<lambda>n. node_id (info n)) (?nest n)) i) ns)"
    by (rule sum_list_map_cong) (rule pointwise)
  with lhs rhs show ?case by (simp add: sum_list_map_add)
qed

lemma distinct_count_le_1: "distinct xs \<Longrightarrow> count_list xs x \<le> 1"
  by (induction xs) auto

text \<open>
  Claim C10. The trace of \<open>clearNodesInternal\<close> is the teardown of the nested groups'
  contents, then \<open>destroyNode\<close> on every member of this level, then the clearing of the
  member list (\<open>clearNodes_last_event\<close>). So for a collection whose nodes are pairwise
  distinct, every group \<open>g\<close> at any depth and every node \<open>m\<close> at any depth inside
  \<open>g\<close>: \<open>destroyNode\<close> has been called on \<open>m\<close> before it is first called on \<open>g\<close>.
\<close>

theorem clearNodes_members_before_group:
  assumes ids: "distinct (map (\<lambda>n. node_id (info n)) (nestedMembers ns))"
    and g: "g \<in> set (nestedMembers ns)"
    and c: "isEffectNodeGroup g = Some c"
    and m: "m \<in> set (nestedMembers c)"
  shows "DestroyNode (node_id (info m))
           \<in> set (takeWhile (\<lambda>e. e \<noteq> DestroyNode (node_id (info g))) (clearNodesInternal owner ns))"
proof -
  from members_before_group[OF g c m, of owner] obtain A B where
    split: "clearNodesInternal owner ns = A @ DestroyNode (node_id (info g)) # B"
    and inA: "DestroyNode (node_id (info m)) \<in> set A" by blast
  have "count_list (clearNodesInternal owner ns) (DestroyNode (node_id (info g))) \<le> 1"
    unfolding destroyed_once using ids by (rule distinct_count_le_1)
  then have "count_list A (DestroyNode (node_id (info g))) = 0"
    unfolding split by simp
  then have notA: "DestroyNode (node_id (info g)) \<notin> set A"
    by (simp add: count_list_0_iff)
  then have "takeWhile (\<lambda>e. e \<noteq> DestroyNode (node_id (info g))) (clearNodesInternal owner ns) = A"
    unfolding split by (subst takeWhile_append2) auto
  with inA show ?thesis by simp
qed

lemma clearNodes_last_event:
  "\<exists>R. clearNodesInternal owner ns
         = R @ map (\<lambda>n. DestroyNode (node_id (info n))) ns @ [ClearMembers owner]"
  by (subst clearNodesInternal.simps) blast

theorem clearNodes_members_before_group_witness:
  "distinct (map (\<lambda>n. node_id (info n)) (nestedMembers
      [Node (plain_info 1 ''Blur1'') None,
       Node (plain_info 2 ''Group1'')
         (Some [Node (plain_info 3 ''Input1'') None,
                Node (plain_info 4 ''Group2'') (Some [Node (plain_info 5 ''Grade1'') None])])]))
   \<and> Node (plain_info 2 ''Group1'')
         (Some [Node (plain_info 3 ''Input1'') None,
                Node (plain_info 4 ''Group2'') (Some [Node (plain_info 5 ''Grade1'') None])])
       \<in> set (nestedMembers
      [Node (plain_info 1 ''Blur1'') None,
       Node (plain_info 2 ''Group1'')
         (Some [Node (plain_info 3 ''Input1'') None,
                Node (plain_info 4 ''Group2'') (Some [Node (plain_info 5 ''Grade1'') None])])])
   \<and> Node (plain_info 5 ''Grade1'') None
       \<in> set (nestedMembers [Node (plain_info 3 ''Input1'') None,
                Node (plain_info 4 ''Group2'') (Some [Node (plain_info 5 ''Grade1'') None])])
   \<and> DestroyNode 5 \<in> set (takeWhile (\<lambda>e. e \<noteq> DestroyNode 2) (clearNodesInternal None
      [Node (plain_info 1 ''Blur1'') None,
       Node (plain_info 2 ''Group1'')
         (Some [Node (plain_info 3 ''Input1'') None,
                Node (plain_info 4 ''Group2'') (Some [Node (plain_info 5 ''Grade1'') None])])]))
   \<and> clearNodesInternal None
      [Node (plain_info 1 ''Blur1'') None,
       Node (plain_info 2 ''Group1'')
         (Some [Node (plain_info 3 ''Input1'') None,
                Node (plain_info 4 ''Group2'') (Some [Node (plain_info 5 ''Grade1'') None])])]
     = [DestroyNode 5, ClearMembers (Some 4), DestroyNode 3, DestroyNode 4, ClearMembers (Some 2),
        DestroyNode 1, DestroyNode 2, ClearMembers None]"
proof -
  let ?inner = "[Node (plain_info 3 ''Input1'') None,
                Node (plain_info 4 ''Group2'') (Some [Node (plain_info 5 ''Grade1'') None])]"
  let ?g = "Node (plain_info 2 ''Group1'') (Some ?inner)"
  let ?m = "Node (plain_info 5 ''Grade1'') None"
  let ?ns = "[Node (plain_info 1 ''Blur1'') None, ?g]"
  have ids: "distinct (map (\<lambda>n. node_id (info n)) (nestedMembers ?ns))" by code_simp
  have g: "?g \<in> set (nestedMembers ?ns)" by code_simp
  have c: "isEffectNodeGroup ?g = Some ?inner" by simp
  have m: "?m \<in> set (nestedMembers ?inner)" by code_simp
  have tr: "clearNodesInternal None ?ns
     = [DestroyNode 5, ClearMembers (Some 4), DestroyNode 3, DestroyNode 4, ClearMembers (Some 2),
        DestroyNode 1, DestroyNode 2, ClearMembers None]" by code_simp
  from clearNodes_members_before_group[OF ids g c m, of None]
  have "DestroyNode 5 \<in> set (takeWhile (\<lambda>e. e \<noteq> DestroyNode 2) (clearNodesInternal None ?ns))"
    by (simp add: plain_info_def)
  with ids g m tr show ?thesis by blast
qed

subsection \<open>Automatic connection\<close>

lemma rewire_no_consumers: "getOutputs w s = [] \<Longrightarrow> rewire_consumers w s c = w"
  by (simp add: rewire_consumers_def)

text \<open>
  Claim C5, as amended. \<open>autoConnectNodes\<close> fails and changes no connection when both
  nodes have no inputs or both are output nodes. Whenever it fails with \<open>created\<close>
  connected as an input of \<open>selected\<close> (\<open>selected\<close> is an output node, or \<open>created\<close> has
  no inputs), or with \<open>created\<close> an output node, or with no consumer of \<open>selected\<close>, no
  connection has changed.
\<close>

theorem autoConnectNodes_failure:
  "((getMaxInputCount w (node_id selected) = 0 \<and> getMaxInputCount w (node_id created) = 0
      \<or> is_output_node selected \<and> is_output_node created)
     \<longrightarrow> autoConnectNodes pref w selected created = (False, w))
   \<and> (\<not> fst (autoConnectNodes pref w selected created)
        \<and> (is_output_node selected \<or> is_output_node created
            \<or> getMaxInputCount w (node_id created) = 0
            \<or> getOutputs w (node_id selected) = [])
     \<longrightarrow> snd (autoConnectNodes pref w selected created) = w)"
  by (auto simp: autoConnectNodes_def Let_def rewire_no_consumers split: if_splits)

text \<open>
  Claim C5 as stated fails: when \<open>created\<close> is spliced between \<open>selected\<close> and its
  consumers, the consumers are rewired before the preferred input of \<open>created\<close> is looked
  up. With \<open>created\<close> having no free slot the call fails, and the consumer 3 of
  \<open>selected\<close> is now fed by \<open>created\<close>.
\<close>

theorem autoConnectNodes_failure_after_rewiring:
  "fst (autoConnectNodes first_free_input example_wiring
          (plain_info 1 ''Blur1'') (plain_info 2 ''Grade1'')) = False
   \<and> node_inputs example_wiring 3 = [Some 1]
   \<and> node_inputs (snd (autoConnectNodes first_free_input example_wiring
          (plain_info 1 ''Blur1'') (plain_info 2 ''Grade1''))) 3 = [Some 2]"
  by code_simp

theorem autoConnectNodes_failure_witness:
  "is_output_node ((plain_info 1 ''Viewer1'')\<lparr>is_output_node := True\<rparr>)
   \<and> is_output_node ((plain_info 2 ''Write1'')\<lparr>is_output_node := True\<rparr>)
   \<and> autoConnectNodes first_free_input example_wiring
        ((plain_info 1 ''Viewer1'')\<lparr>is_output_node := True\<rparr>)
        ((plain_info 2 ''Write1'')\<lparr>is_output_node := True\<rparr>) = (False, example_wiring)
   \<and> \<not> fst (autoConnectNodes first_free_input example_wiring
        ((plain_info 2 ''Write1'')\<lparr>is_output_node := True\<rparr>) (plain_info 1 ''Blur1''))
   \<and> snd (autoConnectNodes first_free_input example_wiring
        ((plain_info 2 ''Write1'')\<lparr>is_output_node := True\<rparr>) (plain_info 1 ''Blur1''))
       = example_wiring"
proof -
  let ?viewer = "(plain_info 1 ''Viewer1'')\<lparr>is_output_node := True\<rparr>"
  let ?wr = "(plain_info 2 ''Write1'')\<lparr>is_output_node := True\<rparr>"
  let ?blur = "plain_info 1 ''Blur1''"
  have a: "is_output_node ?viewer" by simp
  have b: "is_output_node ?wr" by simp
  have f: "\<not> fst (autoConnectNodes first_free_input example_wiring ?wr ?blur)"
    by code_simp
  from autoConnectNodes_failure[of example_wiring ?viewer ?wr first_free_input] a b
  have both: "autoConnectNodes first_free_input example_wiring ?viewer ?wr
      = (False, example_wiring)" by blast
  from autoConnectNodes_failure[of example_wiring ?wr ?blur first_free_input] b f
  have same: "snd (autoConnectNodes first_free_input example_wiring ?wr ?blur) = example_wiring"
    by blast
  from a b both f same show ?thesis by blast
qed

subsection \<open>Reconstruction from persisted records\<close>

lemma mask_search_find:
  "fst (mask_search m n i 0 k) =
     (case find m [i ..< n] of None \<Rightarrow> k | Some j \<Rightarrow> if k = 0 then int j else k)"
proof (induction m n i "0::int" k rule: mask_search.induct)
  case (1 inputIsMask nInputs i index)
  show ?case
  proof (cases "i < nInputs")
    case False
    then show ?thesis by (simp add: mask_search.simps[of inputIsMask nInputs i])
  next
    case True
    then have upt: "[i ..< nInputs] = i # [Suc i ..< nInputs]" by (rule upt_conv_Cons)
    show ?thesis
    proof (cases "inputIsMask i")
      case mask: True
      with True show ?thesis
        by (auto simp: mask_search.simps[of inputIsMask nInputs i] upt)
    next
      case nomask: False
      with True "1.hyps" show ?thesis
        by (simp add: mask_search.simps[of inputIsMask nInputs i] upt)
    qed
  qed
qed

text \<open>
  Claim C4. When the label of a mask entry is not a label of the node and parses as the
  number \<open>k\<close>, the search stops at the first mask slot whatever \<open>k\<close> is: the index that is
  used is that slot when \<open>k = 0\<close>, and \<open>k\<close> itself otherwise, also when the node has a
  second or third mask slot.
\<close>

theorem restoreInput_mask_index:
  assumes "inputLabel = [] \<or> getInputNumberFromLabel node inputLabel = -1"
    and "toInt inputLabel = Some k"
  shows "fst (restoreInput_index toInt w node inputLabel inputNodeScriptName True) =
     (case find (isInputMask node) [0 ..< getMaxInputCount w (node_id node)] of
        None \<Rightarrow> k
      | Some firstMask \<Rightarrow> if k = 0 then int firstMask else k)"
  using assms by (auto simp: restoreInput_index_def Let_def mask_search_find)

theorem restoreInput_mask_index_witness:
  "getInputNumberFromLabel masked_node ''1'' = -1
   \<and> toInt_decimal ''1'' = Some 1
   \<and> fst (restoreInput_index toInt_decimal masked_wiring masked_node ''1'' ''Roto1'' True) = 1
   \<and> getInputNumberFromLabel masked_node ''0'' = -1
   \<and> toInt_decimal ''0'' = Some 0
   \<and> fst (restoreInput_index toInt_decimal masked_wiring masked_node ''0'' ''Roto1'' True) = 2"
proof -
  have l1: "getInputNumberFromLabel masked_node ''1'' = -1" by code_simp
  have p1: "toInt_decimal ''1'' = Some 1" by code_simp
  have l0: "getInputNumberFromLabel masked_node ''0'' = -1" by code_simp
  have p0: "toInt_decimal ''0'' = Some 0" by code_simp
  have f: "find (isInputMask masked_node) [0 ..< getMaxInputCount masked_wiring (node_id masked_node)]
             = Some 2" by code_simp
  from restoreInput_mask_index[where toInt=toInt_decimal and node=masked_node
      and inputLabel="''1''" and k=1 and w=masked_wiring and inputNodeScriptName="''Roto1''"] l1 p1 f
  have r1: "fst (restoreInput_index toInt_decimal masked_wiring masked_node ''1'' ''Roto1'' True) = 1"
    by simp
  from restoreInput_mask_index[where toInt=toInt_decimal and node=masked_node
      and inputLabel="''0''" and k=0 and w=masked_wiring and inputNodeScriptName="''Roto1''"] l0 p0 f
  have r0: "fst (restoreInput_index toInt_decimal masked_wiring masked_node ''0'' ''Roto1'' True) = 2"
    by simp
  from l1 p1 r1 l0 p0 r0 show ?thesis by blast
qed

subsection \<open>Listings and frame range, in general\<close>

text \<open>
  The listing \<open>getActiveNodesExpandGroups\<close> of the source is \<open>nestedMembers\<close>, appended to
  the output list: the notion of "member at any depth" used for the teardown is the
  source's own flattening.
\<close>

lemma fold_expand_groups:
  assumes "\<And>n c acc. n \<in> set ns \<Longrightarrow> isEffectNodeGroup n = Some c
             \<Longrightarrow> getActiveNodesExpandGroups c (acc @ [n]) = (acc @ [n]) @ nestedMembers c"
  shows "fold (\<lambda>n acc. case isEffectNodeGroup n of
                      None \<Rightarrow> acc @ [n]
                    | Some c \<Rightarrow> getActiveNodesExpandGroups c (acc @ [n])) ns out
         = out @ concat (map (\<lambda>n. n # (case isEffectNodeGroup n of
                             None \<Rightarrow> []
                           | Some c \<Rightarrow> nestedMembers c)) ns)"
  using assms
proof (induction ns arbitrary: out)
  case Nil
  then show ?case by simp
next
  case (Cons n ns)
  have step: "(case isEffectNodeGroup n of
                      None \<Rightarrow> out @ [n]
                    | Some c \<Rightarrow> getActiveNodesExpandGroups c (out @ [n]))
        = out @ n # (case isEffectNodeGroup n of None \<Rightarrow> [] | Some c \<Rightarrow> nestedMembers c)"
  proof (cases "isEffectNodeGroup n")
    case None
    then show ?thesis by simp
  next
    case (Some c)
    have "getActiveNodesExpandGroups c (out @ [n]) = (out @ [n]) @ nestedMembers c"
      by (rule Cons.prems) (simp_all add: Some)
    with Some show ?thesis by (simp del: getActiveNodesExpandGroups.simps)
  qed
  have rest: "getActiveNodesExpandGroups c (acc @ [m]) = (acc @ [m]) @ nestedMembers c"
    if "m \<in> set ns" "isEffectNodeGroup m = Some c" for m c acc
    by (rule Cons.prems) (simp_all add: that)
  have "fold (\<lambda>n acc. case isEffectNodeGroup n of
                      None \<Rightarrow> acc @ [n]
                    | Some c \<Rightarrow> getActiveNodesExpandGroups c (acc @ [n])) (n # ns) out
      = fold (\<lambda>n acc. case isEffectNodeGroup n of
                      None \<Rightarrow> acc @ [n]
                    | Some c \<Rightarrow> getActiveNodesExpandGroups c (acc @ [n])) ns
          (out @ n # (case isEffectNodeGroup n of None \<Rightarrow> [] | Some c \<Rightarrow> nestedMembers c))"
    by (simp only: fold.simps o_apply step)
  also have "\<dots> = (out @ n # (case isEffectNodeGroup n of None \<Rightarrow> [] | Some c \<Rightarrow> nestedMembers c))
       @ concat (map (\<lambda>n. n # (case isEffectNodeGroup n of
                             None \<Rightarrow> []
                           | Some c \<Rightarrow> nestedMembers c)) ns)"
    by (rule Cons.IH) (rule rest)
  finally show ?case by (simp del: getActiveNodesExpandGroups.simps)
qed

lemma getActiveNodesExpandGroups_nestedMembers:
  "getActiveNodesExpandGroups coll out = out @ nestedMembers coll"
proof (induction coll out rule: getActiveNodesExpandGroups.induct)
  case (1 coll nodes)
  have "fold (\<lambda>n acc. case isEffectNodeGroup n of
                      None \<Rightarrow> acc @ [n]
                    | Some c \<Rightarrow> getActiveNodesExpandGroups c (acc @ [n])) coll nodes
      = nodes @ concat (map (\<lambda>n. n # (case isEffectNodeGroup n of
                             None \<Rightarrow> []
                           | Some c \<Rightarrow> nestedMembers c)) coll)"
    by (rule fold_expand_groups) (rule "1.IH")
  then show ?case
    by (subst getActiveNodesExpandGroups.simps, subst nestedMembers.simps)
qed

text \<open>
  With \<open>onlyActive = false\<close>, \<open>getNodes_recursive\<close> lists exactly the members at every
  depth: what claim C2 says holds for this value of the flag.
\<close>

lemma set_nestedMembers:
  "set (nestedMembers ns)
     = set ns \<union> (\<Union>n\<in>set ns. case isEffectNodeGroup n of None \<Rightarrow> {} | Some c \<Rightarrow> set (nestedMembers c))"
  by (subst nestedMembers.simps) (auto split: option.splits)

lemma fold_groups_set:
  assumes "\<And>g c acc. g \<in> set gs \<Longrightarrow> isEffectNodeGroup g = Some c
             \<Longrightarrow> set (getNodes_recursive c acc False) = set acc \<union> set (nestedMembers c)"
  shows "set (fold (\<lambda>g acc. case isEffectNodeGroup g of
                      None \<Rightarrow> acc
                    | Some c \<Rightarrow> getNodes_recursive c acc False) gs out)
         = set out \<union> (\<Union>g\<in>set gs. case isEffectNodeGroup g of
                                      None \<Rightarrow> {} | Some c \<Rightarrow> set (nestedMembers c))"
  using assms
proof (induction gs arbitrary: out)
  case Nil
  then show ?case by simp
next
  case (Cons g gs)
  let ?f = "\<lambda>g acc. case isEffectNodeGroup g of
                      None \<Rightarrow> acc
                    | Some c \<Rightarrow> getNodes_recursive c acc False"
  have step: "set (?f g out)
      = set out \<union> (case isEffectNodeGroup g of None \<Rightarrow> {} | Some c \<Rightarrow> set (nestedMembers c))"
  proof (cases "isEffectNodeGroup g")
    case None
    then show ?thesis by simp
  next
    case (Some c)
    have "set (getNodes_recursive c out False) = set out \<union> set (nestedMembers c)"
      by (rule Cons.prems[of g]) (simp_all add: Some)
    with Some show ?thesis by (simp del: getNodes_recursive.simps)
  qed
  have rest: "set (getNodes_recursive c acc False) = set acc \<union> set (nestedMembers c)"
    if "h \<in> set gs" "isEffectNodeGroup h = Some c" for h c acc
    by (rule Cons.prems[of h]) (simp_all add: that)
  have "set (fold ?f (g # gs) out) = set (fold ?f gs (?f g out))"
    by (simp only: fold.simps o_apply)
  also have "\<dots> = set (?f g out) \<union> (\<Union>g\<in>set gs. case isEffectNodeGroup g of
                                      None \<Rightarrow> {} | Some c \<Rightarrow> set (nestedMembers c))"
    by (rule Cons.IH) (rule rest)
  finally show ?case unfolding step by auto
qed

lemma getNodes_recursive_all:
  "set (getNodes_recursive coll out False) = set out \<union> set (nestedMembers coll)"
proof (induction coll out "False" rule: getNodes_recursive.induct)
  case (1 coll nodes)
  let ?gs = "filter (\<lambda>n. isEffectNodeGroup n \<noteq> None) coll"
  have ih: "set (getNodes_recursive c acc False) = set acc \<union> set (nestedMembers c)"
    if "g \<in> set ?gs" "isEffectNodeGroup g = Some c" for g c acc
    using "1.hyps"[of g c acc] that by (simp del: getNodes_recursive.simps)
  have "set (getNodes_recursive coll nodes False)
      = set (nodes @ coll) \<union> (\<Union>g\<in>set ?gs. case isEffectNodeGroup g of
                                      None \<Rightarrow> {} | Some c \<Rightarrow> set (nestedMembers c))"
    by (subst getNodes_recursive.simps, simp only: if_False, rule fold_groups_set, rule ih)
  also have "(\<Union>g\<in>set ?gs. case isEffectNodeGroup g of
                                      None \<Rightarrow> {} | Some c \<Rightarrow> set (nestedMembers c))
      = (\<Union>n\<in>set coll. case isEffectNodeGroup n of None \<Rightarrow> {} | Some c \<Rightarrow> set (nestedMembers c))"
    by (auto split: option.splits)
  finally show ?case by (subst set_nestedMembers) auto
qed

lemma double_to_int_of_int:
  "INT_MIN \<le> v \<Longrightarrow> v \<le> INT_MAX \<Longrightarrow> double_to_int (real_of_int v) = Some v"
  by (simp add: double_to_int_def)

text \<open>
  Whatever precedes it, the last reader of the top level decides the range: the bounds of
  the readers before it are overwritten, not widened.
\<close>

lemma recomputeFrameRange_last_reader:
  assumes "is_reader (info n)" "frame_range (info n) = Some (real_of_int lo, real_of_int hi)"
    "INT_MIN < lo" "lo \<le> INT_MAX" "INT_MIN \<le> hi" "hi < INT_MAX"
    "recomputeFrameRangeForAllReaders ns fl = Some fl'"
  shows "recomputeFrameRangeForAllReaders (ns @ [n]) fl = Some (lo, hi)"
proof -
  have lo: "double_to_int (real_of_int lo) = Some lo" using assms by (simp add: double_to_int_of_int)
  have hi: "double_to_int (real_of_int hi) = Some hi" using assms by (simp add: double_to_int_of_int)
  have "reader_step (real_of_int lo, real_of_int hi) True fl' = Some (lo, hi)"
    using assms(3,6) lo hi by (cases fl') (simp add: reader_step_def)
  with assms(1,2,7) show ?thesis
    by (cases fl') (simp add: recomputeFrameRangeForAllReaders_def)
qed

subsection \<open>The counter of the naming loop\<close>

text \<open>
  The name that \<open>checkNodeName\<close> returns with \<open>appendDigit\<close> carries the first free
  suffix, and the counter never exceeds the number of members plus one: the \<open>int\<close> of the
  source does not overflow on a collection of fewer than \<open>2^31 - 1\<close> members.
\<close>

lemma checkNodeName_loop_first_free:
  "checkNodeName_loop ns node cpy a e nodeName no = Inr r \<Longrightarrow> a \<Longrightarrow>
   nodeName = cpy @ string_of_nat no \<Longrightarrow>
   \<exists>k\<ge>no. r = cpy @ string_of_nat k
      \<and> (\<forall>j. no \<le> j \<and> j < k \<longrightarrow> foundNodeWithName ns node (cpy @ string_of_nat j))"
proof (induction ns node cpy a e nodeName no rule: checkNodeName_loop.induct)
  case (1 ns node cpy appendDigit errorIfExists nodeName no)
  show ?case
  proof (cases "foundNodeWithName ns node nodeName")
    case False
    with "1.prems"(1) have "r = nodeName"
      by (simp add: checkNodeName_loop.simps[of ns node cpy appendDigit errorIfExists nodeName no])
    with "1.prems"(3) have "no \<le> no \<and> r = cpy @ string_of_nat no
      \<and> (\<forall>j. no \<le> j \<and> j < no \<longrightarrow> foundNodeWithName ns node (cpy @ string_of_nat j))" by auto
    then show ?thesis by blast
  next
    case True
    show ?thesis
    proof (cases "errorIfExists \<or> \<not> appendDigit")
      case err: True
      with True "1.prems"(1) show ?thesis
        by (simp add: checkNodeName_loop.simps[of ns node cpy appendDigit errorIfExists nodeName no])
    next
      case cont: False
      with True "1.prems"(1)
      have rec: "checkNodeName_loop ns node cpy appendDigit errorIfExists
                   (cpy @ string_of_nat (Suc no)) (Suc no) = Inr r"
        by (simp add: checkNodeName_loop.simps[of ns node cpy appendDigit errorIfExists nodeName no])
      from "1.IH"[OF True cont rec "1.prems"(2) refl]
      obtain k where k: "Suc no \<le> k" "r = cpy @ string_of_nat k"
        and below: "\<forall>j. Suc no \<le> j \<and> j < k \<longrightarrow> foundNodeWithName ns node (cpy @ string_of_nat j)"
        by blast
      have "foundNodeWithName ns node (cpy @ string_of_nat j)" if "no \<le> j" "j < k" for j
      proof (cases "j = no")
        case True
        with \<open>foundNodeWithName ns node nodeName\<close> "1.prems"(3) show ?thesis by simp
      next
        case False
        with that below show ?thesis by simp
      qed
      with k have "no \<le> k \<and> r = cpy @ string_of_nat k
        \<and> (\<forall>j. no \<le> j \<and> j < k \<longrightarrow> foundNodeWithName ns node (cpy @ string_of_nat j))" by simp
      then show ?thesis by blast
    qed
  qed
qed

lemma taken_range_bound:
  assumes "\<forall>j. no \<le> j \<and> j < k \<longrightarrow> foundNodeWithName ns node (cpy @ string_of_nat j)"
  shows "k - no \<le> length ns"
proof -
  let ?f = "\<lambda>j. cpy @ string_of_nat j"
  have inj: "inj_on ?f {no ..< k}"
    by (rule inj_onI) (simp add: string_of_nat_inj)
  have sub: "?f ` {no ..< k} \<subseteq> set (map (\<lambda>n. script_name (info n)) ns)"
    using assms by (force simp: foundNodeWithName_def list_ex_iff)
  have "k - no = card (?f ` {no ..< k})"
    using inj by (simp add: card_image)
  also have "\<dots> \<le> card (set (map (\<lambda>n. script_name (info n)) ns))"
    by (rule card_mono[OF _ sub]) simp
  also have "\<dots> \<le> length ns"
    using card_length[of "map (\<lambda>n. script_name (info n)) ns"] by simp
  finally show ?thesis .
qed

lemma checkNodeName_loop_counter_bound:
  "checkNodeName_loop ns node cpy True e (cpy @ string_of_nat 1) 1 = Inr r \<Longrightarrow>
   \<exists>k. 1 \<le> k \<and> k \<le> length ns + 1 \<and> r = cpy @ string_of_nat k"
proof -
  assume "checkNodeName_loop ns node cpy True e (cpy @ string_of_nat 1) 1 = Inr r"
  from checkNodeName_loop_first_free[OF this TrueI refl]
  obtain k where k: "1 \<le> k" "r = cpy @ string_of_nat k"
    and below: "\<forall>j. 1 \<le> j \<and> j < k \<longrightarrow> foundNodeWithName ns node (cpy @ string_of_nat j)"
    by blast
  from taken_range_bound[OF below] have "k \<le> length ns + 1" by simp
  with k show ?thesis by blast
qed

subsection \<open>Reconstruction: the result of a batch\<close>

















lemma restoreInput_log:
  "fst (restoreInput toInt w node inputLabel src cm ms ext isMask)
     = (if src = [] then []
        else snd (restoreInput_index toInt w node inputLabel src isMask))"
  by (simp add: restoreInput_def split: prod.splits option.splits)









lemma factory_run_factory_of:
  "factory_run (factory_of f) ms sers = (map f sers, ms @ List.map_filter f sers)"
proof (induction sers arbitrary: ms)
  case Nil
  show ?case by (simp add: List.map_filter_simps)
next
  case (Cons it rest)
  have step: "factory_of f ms it = (f it, case f it of None \<Rightarrow> ms | Some n \<Rightarrow> ms @ [n])"
    by (simp add: factory_of_def)
  show ?case
    by (cases "f it") (simp_all add: step Cons.IH List.map_filter_simps)
qed

lemma restoreInput_wire:
  assumes "src \<noteq> []" "has_group node"
    "findSerializedNodeWithScriptName src cm ms ext = Some foundNode"
    "restoreInput_index toInt w node inputLabel src isMask = (index, entries)"
    "0 \<le> index" "nat index < length (node_inputs w (node_id node))"
  shows "node_inputs (snd (restoreInput toInt w node inputLabel src cm ms ext isMask))
           (node_id node) ! nat index = Some (node_id (info foundNode))"
  using assms by (simp add: restoreInput_def swapInput_def)




end
